theory Spec2Isabelle
  imports Complex_Main "HOL-Library.Multiset"
begin

section \<open>Numbers\<close>

text \<open>
  A JavaScript number is an IEEE 754 double: \<open>NaN\<close>, the two infinities, or a finite
  value, kept here as the rational it stands for. The two zeros are one value: no
  operation the program applies tells them apart except division by zero, which the
  program guards.

  \<open>rd\<close> rounds a rational to the nearest double, to the even mantissa when two are
  equally near: the mantissa has 53 bits, the least exponent of its last bit is
  \<open>-1074\<close>, and a magnitude that rounds to \<open>2^1024\<close> or more becomes an infinity.
  Every arithmetic operation of the program is the exact operation followed by \<open>rd\<close>.
\<close>

datatype number = NaN | PInf | NInf | Fin rat

text \<open>The number of digits of a positive integer \<open>n\<close> in base \<open>b\<close>.\<close>

function countDigits :: "int \<Rightarrow> int \<Rightarrow> int" where
  "countDigits b n = (if b < 2 \<or> n < b then 1 else 1 + countDigits b (n div b))"
  by pat_completeness auto
termination
proof (relation "measure (\<lambda>(b, n). nat n)")
  show "wf (measure (\<lambda>(b, n). nat n))" by simp
next
  fix b n :: int
  assume "\<not> (b < 2 \<or> n < b)"
  then have b: "2 \<le> b" "b \<le> n" by simp_all
  then have "n div b < n" by (simp add: int_div_less_self)
  moreover have "0 < n" using b by simp
  ultimately show "((b, n div b), (b, n)) \<in> measure (\<lambda>(b, n). nat n)" by simp
qed

declare countDigits.simps [simp del]

text \<open>The exponent \<open>k\<close> with \<open>b^k \<le> a < b^(k+1)\<close>, for a positive rational \<open>a\<close>.\<close>

definition ilog :: "int \<Rightarrow> rat \<Rightarrow> int" where
  "ilog b a =
     (let (p, q) = quotient_of a;
          k = countDigits b p - countDigits b q
      in if of_int b powi k \<le> a then k else k - 1)"

definition roundEven :: "rat \<Rightarrow> int" where
  "roundEven m =
     (let f = \<lfloor>m\<rfloor>; r = m - of_int f
      in if r < 1 / 2 then f else if 1 / 2 < r then f + 1 else if even f then f else f + 1)"

fun jneg :: "number \<Rightarrow> number" where
  "jneg NaN = NaN"
| "jneg PInf = NInf"
| "jneg NInf = PInf"
| "jneg (Fin x) = Fin (- x)"

definition exponentOf :: "rat \<Rightarrow> int" where
  "exponentOf a = max (ilog 2 a - 52) (- 1074)"

definition mantissaOf :: "rat \<Rightarrow> int" where
  "mantissaOf a = roundEven (a / 2 powi exponentOf a)"

definition roundPositive :: "rat \<Rightarrow> number" where
  "roundPositive a =
     (if 971 < exponentOf a \<or> (exponentOf a = 971 \<and> 2 ^ 53 \<le> mantissaOf a) then PInf
      else Fin (of_int (mantissaOf a) * 2 powi exponentOf a))"

definition rd :: "rat \<Rightarrow> number" where
  "rd x = (if x = 0 then Fin 0 else if x < 0 then jneg (roundPositive (- x)) else roundPositive x)"

fun isNaN :: "number \<Rightarrow> bool" where
  "isNaN NaN = True"
| "isNaN x = False"

fun jabs :: "number \<Rightarrow> number" where
  "jabs NaN = NaN"
| "jabs PInf = PInf"
| "jabs NInf = PInf"
| "jabs (Fin x) = Fin \<bar>x\<bar>"

fun jadd :: "number \<Rightarrow> number \<Rightarrow> number" where
  "jadd NaN y = NaN"
| "jadd x NaN = NaN"
| "jadd PInf NInf = NaN"
| "jadd NInf PInf = NaN"
| "jadd PInf y = PInf"
| "jadd NInf y = NInf"
| "jadd x PInf = PInf"
| "jadd x NInf = NInf"
| "jadd (Fin x) (Fin y) = rd (x + y)"

definition jsub :: "number \<Rightarrow> number \<Rightarrow> number" where
  "jsub x y = jadd x (jneg y)"

fun jmul :: "number \<Rightarrow> number \<Rightarrow> number" where
  "jmul NaN y = NaN"
| "jmul x NaN = NaN"
| "jmul (Fin x) (Fin y) = rd (x * y)"
| "jmul (Fin x) y = (if x = 0 then NaN else if 0 < x then y else jneg y)"
| "jmul x (Fin y) = (if y = 0 then NaN else if 0 < y then x else jneg x)"
| "jmul PInf y = y"
| "jmul NInf y = jneg y"

text \<open>
  A finite number divided by zero is an infinity whose sign is the product of the two
  signs; with one zero in the model the divisor counts as positive.
\<close>

fun jdiv :: "number \<Rightarrow> number \<Rightarrow> number" where
  "jdiv NaN y = NaN"
| "jdiv x NaN = NaN"
| "jdiv (Fin x) (Fin y) =
     (if y = 0 then (if x = 0 then NaN else if 0 < x then PInf else NInf) else rd (x / y))"
| "jdiv (Fin x) y = Fin 0"
| "jdiv x (Fin y) = (if 0 \<le> y then x else jneg x)"
| "jdiv x y = NaN"

text \<open>\<open>x < y\<close>; false as soon as one side is \<open>NaN\<close>.\<close>

fun jless :: "number \<Rightarrow> number \<Rightarrow> bool" where
  "jless NaN y = False"
| "jless x NaN = False"
| "jless PInf y = False"
| "jless x NInf = False"
| "jless NInf y = True"
| "jless x PInf = True"
| "jless (Fin x) (Fin y) = (x < y)"

text \<open>\<open>Math.min\<close> and \<open>Math.max\<close> of two numbers.\<close>

definition jmin :: "number \<Rightarrow> number \<Rightarrow> number" where
  "jmin x y = (if isNaN x \<or> isNaN y then NaN else if jless y x then y else x)"

definition jmax :: "number \<Rightarrow> number \<Rightarrow> number" where
  "jmax x y = (if isNaN x \<or> isNaN y then NaN else if jless x y then y else x)"

section \<open>Strings\<close>

text \<open>
  A string is a list of characters, one \<open>char\<close> for each code unit below 256. The
  operations are those of the JavaScript library that the source calls: \<open>trim\<close>,
  \<open>split\<close> with a one-character separator, \<open>includes\<close>, \<open>toLowerCase\<close>,
  \<open>findIndex\<close> (with \<open>None\<close> for the result \<open>-1\<close>) and reading an array at an index
  (with \<open>None\<close> for \<open>undefined\<close>).
\<close>

definition isWhiteSpace :: "char \<Rightarrow> bool" where
  "isWhiteSpace c = (of_char c \<in> {9, 10, 11, 12, 13, 32, 160 :: int})"

definition trim :: "string \<Rightarrow> string" where
  "trim s = rev (dropWhile isWhiteSpace (rev (dropWhile isWhiteSpace s)))"

fun split_on :: "char \<Rightarrow> string \<Rightarrow> string list" where
  "split_on sep [] = [[]]"
| "split_on sep (c # cs) =
     (if c = sep then [] # split_on sep cs
      else (case split_on sep cs of
              w # ws \<Rightarrow> (c # w) # ws
            | [] \<Rightarrow> [[c]]))"

fun str_includes :: "string \<Rightarrow> string \<Rightarrow> bool" where
  "str_includes [] pat = (pat = [])"
| "str_includes (c # cs) pat = (take (length pat) (c # cs) = pat \<or> str_includes cs pat)"

definition lowerChar :: "char \<Rightarrow> char" where
  "lowerChar c =
     (let n = (of_char c :: int)
      in if (65 \<le> n \<and> n \<le> 90) \<or> (192 \<le> n \<and> n \<le> 222 \<and> n \<noteq> 215)
         then char_of (n + 32) else c)"

definition toLowerCase :: "string \<Rightarrow> string" where
  "toLowerCase s = map lowerChar s"

fun findIndex :: "('a \<Rightarrow> bool) \<Rightarrow> 'a list \<Rightarrow> nat option" where
  "findIndex P [] = None"
| "findIndex P (x # xs) = (if P x then Some 0 else map_option Suc (findIndex P xs))"

definition at_index :: "'a list \<Rightarrow> nat \<Rightarrow> 'a option" where
  "at_index xs i = (if i < length xs then Some (xs ! i) else None)"

definition isDigit :: "char \<Rightarrow> bool" where
  "isDigit c = (48 \<le> (of_char c :: int) \<and> (of_char c :: int) \<le> 57)"

definition digitsValue :: "string \<Rightarrow> int" where
  "digitsValue ds = foldl (\<lambda>acc c. 10 * acc + (of_char c - 48)) 0 ds"

definition digitChar :: "int \<Rightarrow> char" where
  "digitChar n = char_of (48 + n)"

function showNat :: "int \<Rightarrow> string" where
  "showNat n = (if n < 10 then [digitChar n] else showNat (n div 10) @ [digitChar (n mod 10)])"
  by pat_completeness auto
termination
  by (relation "measure nat") auto

declare showNat.simps [simp del]

section \<open>Numbers and text\<close>

text \<open>
  \<open>parseInt(s, 10)\<close>: leading white space, an optional sign, then the longest run of
  digits, read as an integer and rounded to a double; \<open>NaN\<close> when there is no digit.
  An absent cell (\<open>undefined\<close>) reads as the text \<open>undefined\<close>, which has none.
\<close>

definition signOf :: "string \<Rightarrow> bool \<times> string" where
  "signOf s =
     (case s of
        [] \<Rightarrow> (False, [])
      | c # r \<Rightarrow> if c = CHR ''-'' then (True, r)
                 else if c = CHR ''+'' then (False, r) else (False, s))"

definition parseInt :: "string \<Rightarrow> number" where
  "parseInt inputString =
     (let (neg, rest) = signOf (dropWhile isWhiteSpace inputString);
          ds = takeWhile isDigit rest
      in if ds = [] then NaN
         else if neg then jneg (rd (of_int (digitsValue ds))) else rd (of_int (digitsValue ds)))"

text \<open>
  \<open>parseFloat(s)\<close>: leading white space, an optional sign, then either the word
  \<open>Infinity\<close> or the longest prefix that is a decimal literal: digits with an optional
  fraction (or a fraction alone) and an optional exponent, which counts only when it has
  a digit. The value of the literal is rounded to a double.
\<close>

definition exponentPart :: "string \<Rightarrow> int" where
  "exponentPart s =
     (case s of
        [] \<Rightarrow> 0
      | c # r \<Rightarrow>
          if c = CHR ''e'' \<or> c = CHR ''E''
          then (let (neg, rest) = signOf r; ds = takeWhile isDigit rest
                in if ds = [] then 0
                   else if neg then - digitsValue ds else digitsValue ds)
          else 0)"

definition decimalLiteral :: "string \<Rightarrow> rat option" where
  "decimalLiteral unsigned =
     (let intDigits = takeWhile isDigit unsigned;
          afterInt = dropWhile isDigit unsigned;
          hasPoint = (afterInt \<noteq> [] \<and> hd afterInt = CHR ''.'');
          fracDigits = (if hasPoint then takeWhile isDigit (tl afterInt) else []);
          afterFrac = (if hasPoint then dropWhile isDigit (tl afterInt) else afterInt)
      in if intDigits = [] \<and> fracDigits = [] then None
         else Some (of_int (digitsValue (intDigits @ fracDigits))
                      * 10 powi (exponentPart afterFrac - int (length fracDigits))))"

definition parseFloat :: "string \<Rightarrow> number" where
  "parseFloat inputString =
     (let (neg, unsigned) = signOf (dropWhile isWhiteSpace inputString);
          magnitude = (if take 8 unsigned = ''Infinity'' then PInf
                       else case decimalLiteral unsigned of
                              None \<Rightarrow> NaN
                            | Some mv \<Rightarrow> rd mv)
      in if neg then jneg magnitude else magnitude)"

definition parseFloatCell :: "string option \<Rightarrow> number" where
  "parseFloatCell v = (case v of None \<Rightarrow> NaN | Some s \<Rightarrow> parseFloat s)"

definition parseIntCell :: "string option \<Rightarrow> number" where
  "parseIntCell v = (case v of None \<Rightarrow> NaN | Some s \<Rightarrow> parseInt s)"

text \<open>
  The text of a number, as a template literal prints it. For a finite number other than
  zero it is built from the shortest run of digits \<open>s\<close> (of length \<open>k\<close>) and the
  exponent \<open>n\<close> for which \<open>s * 10^(n - k)\<close> rounds to the number; of two such runs
  of the same length the nearer one, and the even one when they are equally near.
  Seventeen digits always suffice.
\<close>

definition digitCandidates :: "rat \<Rightarrow> int \<Rightarrow> int \<Rightarrow> (int \<times> int) list" where
  "digitCandidates v n0 k =
     (let sc = 10 powi (n0 - k);
          lo = \<lfloor>v / sc\<rfloor>;
          ok = (\<lambda>s. 10 ^ nat (k - 1) \<le> s \<and> s < 10 ^ nat k \<and> rd (of_int s * sc) = Fin v);
          both = filter ok [lo, lo + 1];
          near = (case both of
                    [a, b] \<Rightarrow>
                      (let da = \<bar>of_int a * sc - v\<bar>; db = \<bar>of_int b * sc - v\<bar>
                       in if da < db then [a] else if db < da then [b]
                          else if even a then [a] else [b])
                  | _ \<Rightarrow> both)
      in map (\<lambda>s. (s, n0)) near
         @ (if k = 1 \<and> rd (10 powi n0) = Fin v then [(1, n0 + 1)] else []))"

fun shortestDigits :: "rat \<Rightarrow> int \<Rightarrow> int list \<Rightarrow> int \<times> int \<times> int" where
  "shortestDigits v n0 [] = (0, 1, 1)"
| "shortestDigits v n0 (k # ks) =
     (case digitCandidates v n0 k of
        [] \<Rightarrow> shortestDigits v n0 ks
      | (s, n) # rest \<Rightarrow> (s, k, n))"

definition positiveToString :: "rat \<Rightarrow> string" where
  "positiveToString v =
     (let (s, k, n) = shortestDigits v (ilog 10 v + 1) [1, 2, 3, 4, 5, 6, 7, 8, 9, 10, 11, 12, 13, 14, 15, 16, 17];
          ds = showNat s
      in if k \<le> n \<and> n \<le> 21 then ds @ replicate (nat (n - k)) (CHR ''0'')
         else if 0 < n \<and> n \<le> 21 then take (nat n) ds @ CHR ''.'' # drop (nat n) ds
         else if - 6 < n \<and> n \<le> 0 then ''0.'' @ replicate (nat (- n)) (CHR ''0'') @ ds
         else let e = n - 1;
                  es = (if e < 0 then CHR ''-'' else CHR ''+'') # showNat \<bar>e\<bar>
              in if k = 1 then ds @ CHR ''e'' # es
                 else hd ds # CHR ''.'' # tl ds @ CHR ''e'' # es)"

fun numberToString :: "number \<Rightarrow> string" where
  "numberToString NaN = ''NaN''"
| "numberToString PInf = ''Infinity''"
| "numberToString NInf = ''-Infinity''"
| "numberToString (Fin x) =
     (if x = 0 then ''0'' else if x < 0 then CHR ''-'' # positiveToString (- x)
      else positiveToString x)"

text \<open>
  \<open>x.toFixed(d)\<close> for \<open>d\<close> from 0 to 100. Below \<open>10^21\<close> in magnitude: the sign, then
  the digits of the integer \<open>n\<close> with \<open>n / 10^d\<close> nearest to the magnitude (the larger
  one of two candidates), filled with zeros on the left up to \<open>d + 1\<close> digits, with the
  point before the last \<open>d\<close> of them. Otherwise the text of the number.
\<close>

definition toFixedDigits :: "nat \<Rightarrow> rat \<Rightarrow> string" where
  "toFixedDigits d x =
     (let n = \<lfloor>\<bar>x\<bar> * 10 ^ d + 1 / 2\<rfloor>;
          m0 = showNat n;
          m = (if length m0 \<le> d then replicate (d + 1 - length m0) (CHR ''0'') @ m0 else m0);
          k = length m;
          body = (if d = 0 then m else take (k - d) m @ CHR ''.'' # drop (k - d) m)
      in if x < 0 then CHR ''-'' # body else body)"

fun toFixed :: "nat \<Rightarrow> number \<Rightarrow> string" where
  "toFixed d (Fin x) = (if 10 ^ 21 \<le> \<bar>x\<bar> then numberToString (Fin x) else toFixedDigits d x)"
| "toFixed d x = numberToString x"

text \<open>
  The decimal number that \<open>toFixed\<close> prints for a magnitude below \<open>10^21\<close>.
\<close>

definition roundDecimal :: "nat \<Rightarrow> rat \<Rightarrow> rat" where
  "roundDecimal d x =
     (if x < 0 then - (of_int \<lfloor>(- x) * 10 ^ d + 1 / 2\<rfloor> / 10 ^ d)
      else of_int \<lfloor>x * 10 ^ d + 1 / 2\<rfloor> / 10 ^ d)"

section \<open>Errors\<close>

text \<open>
  Every failure object \<open>{ success: false, error: ... }\<close> and the one \<open>throw\<close> of the
  source, by the message it carries.
\<close>

datatype failure =
    InvalidResponse         \<comment> \<open>Invalid simulation response or no data available\<close>
  | NoDataRows              \<comment> \<open>No data rows found in simulation response\<close>
  | DecYearColumnNotFound   \<comment> \<open>Could not find "Dec. Year" column in CSV data\<close>
  | CarbonColumnNotFound    \<comment> \<open>Could not find "C mass of trees (tC/ha)" column in CSV data\<close>
  | NoCarbonValues          \<comment> \<open>Could not find carbon values for the specified date range\<close>
  | InvalidMonth            \<comment> \<open>Month must be between 1 and 12\<close>
  | NoSimulationRows        \<comment> \<open>No simulation rows to chart\<close>
  | ChartColumnsNotFound    \<comment> \<open>Required carbon chart columns not found in simulation CSV\<close>
  | NotEnoughDataPoints     \<comment> \<open>Not enough data points to chart carbon change per step\<close>
  | NoStepChanges           \<comment> \<open>No step changes found in selected analysis period\<close>
  | TypeErrorThrown         \<comment> \<open>a \<open>TypeError\<close> raised by the runtime\<close>

section \<open>Simulation payloads\<close>

text \<open>
  The payload has the type \<open>any\<close>. What the functions ask of it is whether it is a string,
  whether it is truthy, and the text \<open>JSON.stringify\<close> gives for it when it is not a
  string; \<open>JsOther\<close> carries the last two.
\<close>

datatype js_value = Undefined | JsString string | JsOther bool string

fun truthy :: "js_value \<Rightarrow> bool" where
  "truthy Undefined = False"
| "truthy (JsString s) = (s \<noteq> [])"
| "truthy (JsOther t j) = t"

record SimulationResponse =
  success :: bool
  data :: js_value
  error :: "string option"

definition csvLines :: "string \<Rightarrow> string list" where
  "csvLines csvData = filter (\<lambda>line. trim line \<noteq> []) (split_on CHR 0x0A csvData)"

definition cells :: "string \<Rightarrow> string list" where
  "cells line = map trim (split_on CHR '','' line)"

section \<open>calculateCarbonSequestration\<close>

record SequestrationResult =
  totalCarbon :: number
  startCarbon :: number
  endCarbon :: number
  dataPoints :: nat

text \<open>
  The four variables of the scan. \<open>closestStartDiff\<close> and \<open>closestEndDiff\<close> start at
  \<open>Infinity\<close>, \<open>startCarbon\<close> and \<open>endCarbon\<close> at \<open>null\<close>, which is \<open>None\<close>.
\<close>

record scan =
  s_startCarbon :: "number option"
  s_endCarbon :: "number option"
  closestStartDiff :: number
  closestEndDiff :: number

definition scan_init :: scan where
  "scan_init = \<lparr>s_startCarbon = None, s_endCarbon = None,
                 closestStartDiff = PInf, closestEndDiff = PInf\<rparr>"

definition isDecYearHeader :: "string \<Rightarrow> bool" where
  "isDecYearHeader h = str_includes h ''Dec. Year''"

definition isTreesHeader :: "string \<Rightarrow> bool" where
  "isTreesHeader h = (str_includes h ''C mass of trees'' \<and> str_includes h ''tC/ha'')"

text \<open>
  One row of the scan: the two numbers the row gives, or nothing when the row is skipped
  because one of them is \<open>NaN\<close>.
\<close>

definition seq_row :: "nat \<Rightarrow> nat \<Rightarrow> string \<Rightarrow> (number \<times> number) option" where
  "seq_row decYearIndex carbonIndex line =
     (let values = cells line;
          decYear = parseFloatCell (at_index values decYearIndex);
          carbonValue = parseFloatCell (at_index values carbonIndex)
      in if isNaN decYear \<or> isNaN carbonValue then None
         else Some (decYear, carbonValue))"

definition scan_update :: "number \<Rightarrow> number \<Rightarrow> scan \<Rightarrow> number \<times> number \<Rightarrow> scan" where
  "scan_update startDate endDate st row =
     (let decYear = fst row; carbonValue = snd row;
          startDiff = jabs (jsub decYear startDate);
          st1 = (if jless startDiff (closestStartDiff st)
                 then st\<lparr>closestStartDiff := startDiff, s_startCarbon := Some carbonValue\<rparr>
                 else st);
          endDiff = jabs (jsub decYear endDate)
      in if jless endDiff (closestEndDiff st1)
         then st1\<lparr>closestEndDiff := endDiff, s_endCarbon := Some carbonValue\<rparr>
         else st1)"

fun scan_loop :: "nat \<Rightarrow> nat \<Rightarrow> number \<Rightarrow> number \<Rightarrow> scan \<Rightarrow> string list \<Rightarrow> scan" where
  "scan_loop decYearIndex carbonIndex startDate endDate st [] = st"
| "scan_loop decYearIndex carbonIndex startDate endDate st (line # rest) =
     (case seq_row decYearIndex carbonIndex line of
        None \<Rightarrow> scan_loop decYearIndex carbonIndex startDate endDate st rest
      | Some row \<Rightarrow>
          scan_loop decYearIndex carbonIndex startDate endDate
            (scan_update startDate endDate st row) rest)"

text \<open>
  Nothing inside the \<open>try\<close> block raises on a response of the declared type, so the
  \<open>catch\<close> branch has no counterpart here.
\<close>

definition calculateCarbonSequestration ::
  "SimulationResponse \<Rightarrow> number \<Rightarrow> number \<Rightarrow> failure + SequestrationResult" where
  "calculateCarbonSequestration simulationResponse startDate endDate =
     (if \<not> success simulationResponse \<or> \<not> truthy (data simulationResponse)
      then Inl InvalidResponse
      else
        let csvData = (case data simulationResponse of
                         JsString s \<Rightarrow> s | JsOther t j \<Rightarrow> j | Undefined \<Rightarrow> []);
            lines = csvLines csvData
        in if length lines < 2 then Inl NoDataRows
           else
             let headers = cells (hd lines);
                 decYearIndex = findIndex isDecYearHeader headers;
                 carbonIndex = findIndex isTreesHeader headers
             in case decYearIndex of
                  None \<Rightarrow> Inl DecYearColumnNotFound
                | Some di \<Rightarrow>
                   (case carbonIndex of
                      None \<Rightarrow> Inl CarbonColumnNotFound
                    | Some ci \<Rightarrow>
                       (let st = scan_loop di ci startDate endDate scan_init (tl lines)
                        in case (s_startCarbon st, s_endCarbon st) of
                             (Some startC, Some endC) \<Rightarrow>
                               (let total = jsub endC startC
                                in Inr \<lparr>totalCarbon = parseFloat (toFixed 10 total),
                                        startCarbon = parseFloat (toFixed 10 startC),
                                        endCarbon = parseFloat (toFixed 10 endC),
                                        dataPoints = 2\<rparr>)
                           | _ \<Rightarrow> Inl NoCarbonValues)))"

text \<open>
  The usable rows of a response, in row order: the pairs of decimal year and carbon value
  (neither of them \<open>NaN\<close>) that the scan meets, or the failure that ends the call before
  the scan.
\<close>

definition usable_rows :: "SimulationResponse \<Rightarrow> failure + (number \<times> number) list" where
  "usable_rows simulationResponse =
     (if \<not> success simulationResponse \<or> \<not> truthy (data simulationResponse)
      then Inl InvalidResponse
      else
        let csvData = (case data simulationResponse of
                         JsString s \<Rightarrow> s | JsOther t j \<Rightarrow> j | Undefined \<Rightarrow> []);
            lines = csvLines csvData
        in if length lines < 2 then Inl NoDataRows
           else
             let headers = cells (hd lines)
             in case findIndex isDecYearHeader headers of
                  None \<Rightarrow> Inl DecYearColumnNotFound
                | Some di \<Rightarrow>
                   (case findIndex isTreesHeader headers of
                      None \<Rightarrow> Inl CarbonColumnNotFound
                    | Some ci \<Rightarrow> Inr (List.map_filter (seq_row di ci) (tl lines))))"

text \<open>
  The distance of a record from a target date as the scan computes it, and whether it is
  finite, that is below the \<open>Infinity\<close> the scan starts from.
\<close>

definition distance :: "number \<Rightarrow> number \<times> number \<Rightarrow> number" where
  "distance target r = jabs (jsub (fst r) target)"

definition reachable :: "number \<Rightarrow> number \<times> number \<Rightarrow> bool" where
  "reachable target r = jless (distance target r) PInf"

text \<open>
  Record \<open>i\<close> is the first of the records nearest to the target: its distance is
  finite, no record is nearer, and every earlier record at a finite distance is strictly
  farther.
\<close>

definition first_nearest :: "(number \<times> number) list \<Rightarrow> number \<Rightarrow> nat \<Rightarrow> bool" where
  "first_nearest recs target i =
     (i < length recs \<and> reachable target (recs ! i) \<and>
      (\<forall>k \<in> {..<length recs}. \<not> jless (distance target (recs ! k)) (distance target (recs ! i))) \<and>
      (\<forall>k \<in> {..<i}. reachable target (recs ! k) \<longrightarrow>
                     jless (distance target (recs ! i)) (distance target (recs ! k))))"

text \<open>
  What the scan holds for one target after the records \<open>recs\<close>: nothing as long as no
  record is at a finite distance, and afterwards the carbon value and the distance of
  the first nearest record.
\<close>

definition resolved :: "(number \<times> number) list \<Rightarrow> number \<Rightarrow> number option \<Rightarrow> number \<Rightarrow> bool" where
  "resolved recs t c d =
     (if \<forall>r \<in> set recs. \<not> reachable t r then c = None \<and> d = PInf
      else \<exists>i. first_nearest recs t i \<and> c = Some (snd (recs ! i)) \<and> d = distance t (recs ! i))"

section \<open>dateToDecimalYear\<close>

definition dateToDecimalYear :: "number \<Rightarrow> number \<Rightarrow> failure + number" where
  "dateToDecimalYear year month =
     (if jless month (Fin 1) \<or> jless (Fin 12) month then Inl InvalidMonth
      else let decimalPart = jdiv (jsub month (Fin 1)) (Fin 12)
           in Inr (parseFloat (toFixed 3 (jadd year decimalPart))))"

section \<open>calculateAverageAnnualSequestration\<close>

record AverageAnnualResult =
  avg_totalCarbon :: number
  averagePerYear :: number
  years :: number

text \<open>
  The \<open>catch\<close> branch turns the error thrown by \<open>dateToDecimalYear\<close> into a failure
  with the same message.
\<close>

definition calculateAverageAnnualSequestration ::
  "SimulationResponse \<Rightarrow> number \<Rightarrow> number \<Rightarrow> number \<Rightarrow> number \<Rightarrow> failure + AverageAnnualResult" where
  "calculateAverageAnnualSequestration simulationResponse startYear startMonth endYear endMonth =
     (case dateToDecimalYear startYear startMonth of
        Inl e \<Rightarrow> Inl e
      | Inr startDate \<Rightarrow>
         (case dateToDecimalYear endYear endMonth of
            Inl e \<Rightarrow> Inl e
          | Inr endDate \<Rightarrow>
             (case calculateCarbonSequestration simulationResponse startDate endDate of
                Inl e \<Rightarrow> Inl e
              | Inr result \<Rightarrow>
                 (let elapsed = jsub endDate startDate;
                      average = (if jless (Fin 0) elapsed then jdiv (totalCarbon result) elapsed
                                 else Fin 0)
                  in Inr \<lparr>avg_totalCarbon = totalCarbon result,
                          averagePerYear = parseFloat (toFixed 10 average),
                          years = parseFloat (toFixed 2 elapsed)\<rparr>))))"

section \<open>extractStepCarbonChanges\<close>

definition toStepPoint :: "number \<Rightarrow> number \<Rightarrow> number" where
  "toStepPoint year stepInYear = jadd (jmul year (Fin 12)) (jsub stepInYear (Fin 1))"

record CarbonAnalysisRange =
  startYear :: number
  startStepInYear :: number
  endYear :: number
  endStepInYear :: number

record StepCarbonChange =
  label :: string
  delta :: number

record chart_point =
  year :: number
  step :: number
  point :: number
  combinedCarbon :: number

definition isYearHeader :: "string \<Rightarrow> bool" where
  "isYearHeader h = (toLowerCase h = ''year'')"

definition isStepHeader :: "string \<Rightarrow> bool" where
  "isStepHeader h = str_includes (toLowerCase h) ''step in year''"

definition isDebrisHeader :: "string \<Rightarrow> bool" where
  "isDebrisHeader h = (str_includes h ''C mass of forest debris'' \<and> str_includes h ''tC/ha'')"

text \<open>
  The five column roles and the test each one applies to a header cell; a role resolves
  to the first cell that passes its test.
\<close>

datatype role = DecYearRole | YearRole | StepInYearRole | TreeCarbonRole | DebrisCarbonRole

fun role_matches :: "role \<Rightarrow> string \<Rightarrow> bool" where
  "role_matches DecYearRole h = isDecYearHeader h"
| "role_matches YearRole h = isYearHeader h"
| "role_matches StepInYearRole h = isStepHeader h"
| "role_matches TreeCarbonRole h = isTreesHeader h"
| "role_matches DebrisCarbonRole h = isDebrisHeader h"

definition resolve :: "role \<Rightarrow> string list \<Rightarrow> nat option" where
  "resolve r headers = findIndex (role_matches r) headers"

text \<open>
  One row of the chart data: the point it gives, or nothing when the row is skipped
  because one of its four numbers is \<open>NaN\<close>.
\<close>

definition chart_row :: "nat \<Rightarrow> nat \<Rightarrow> nat \<Rightarrow> nat \<Rightarrow> string \<Rightarrow> chart_point option" where
  "chart_row yearIndex stepIndex treesIndex debrisIndex line =
     (let values = cells line;
          y = parseIntCell (at_index values yearIndex);
          s = parseIntCell (at_index values stepIndex);
          trees = parseFloatCell (at_index values treesIndex);
          debris = parseFloatCell (at_index values debrisIndex)
      in if isNaN y \<or> isNaN s \<or> isNaN trees \<or> isNaN debris then None
         else Some \<lparr>year = y, step = s, point = toStepPoint y s,
                    combinedCarbon = jadd trees debris\<rparr>)"

fun points_loop ::
  "nat \<Rightarrow> nat \<Rightarrow> nat \<Rightarrow> nat \<Rightarrow> chart_point list \<Rightarrow> string list \<Rightarrow> chart_point list" where
  "points_loop yearIndex stepIndex treesIndex debrisIndex points [] = points"
| "points_loop yearIndex stepIndex treesIndex debrisIndex points (line # rest) =
     (case chart_row yearIndex stepIndex treesIndex debrisIndex line of
        None \<Rightarrow> points_loop yearIndex stepIndex treesIndex debrisIndex points rest
      | Some p \<Rightarrow> points_loop yearIndex stepIndex treesIndex debrisIndex (points @ [p]) rest)"

text \<open>
  \<open>points.sort((a, b) => a.point - b.point)\<close>. The sort is stable and puts \<open>a\<close>
  after \<open>b\<close> when the difference is positive, so it is the insertion of each point, from
  the last to the first, before the first point it does not have to follow. This fixes
  the result when the comparison is consistent, that is when no step point is \<open>NaN\<close>.
\<close>

definition comparePoints :: "chart_point \<Rightarrow> chart_point \<Rightarrow> number" where
  "comparePoints a b = jsub (point a) (point b)"

fun insertPoint :: "chart_point \<Rightarrow> chart_point list \<Rightarrow> chart_point list" where
  "insertPoint a [] = [a]"
| "insertPoint a (b # bs) =
     (if jless (Fin 0) (comparePoints a b) then b # insertPoint a bs else a # b # bs)"

definition sortPoints :: "chart_point list \<Rightarrow> chart_point list" where
  "sortPoints ps = foldr insertPoint ps []"

definition step_change :: "chart_point \<Rightarrow> chart_point \<Rightarrow> StepCarbonChange" where
  "step_change current previous =
     \<lparr>label = numberToString (year current) @ ''-S'' @ numberToString (step current),
      delta = parseFloat (toFixed 10 (jsub (combinedCarbon current) (combinedCarbon previous)))\<rparr>"

function changes_loop ::
  "number \<Rightarrow> number \<Rightarrow> chart_point list \<Rightarrow> nat \<Rightarrow> StepCarbonChange list \<Rightarrow> StepCarbonChange list" where
  "changes_loop startPoint endPoint points i changes =
     (if i < length points
      then (let current = points ! i; previous = points ! (i - 1)
            in if jless (point current) startPoint \<or> jless endPoint (point current)
               then changes_loop startPoint endPoint points (i + 1) changes
               else changes_loop startPoint endPoint points (i + 1)
                      (changes @ [step_change current previous]))
      else changes)"
  by pat_completeness auto
termination
  by (relation "measure (\<lambda>(sp, ep, ps, i, cs). length ps - i)") auto

declare changes_loop.simps [simp del]

text \<open>
  The first half of the function, up to the end of the row loop: the points in row
  order, or the failure that ends the call before them. A payload that is \<open>undefined\<close>
  reaches \<open>csvData.split\<close> as \<open>undefined\<close>, which raises.
\<close>

definition chart_points :: "js_value \<Rightarrow> failure + chart_point list" where
  "chart_points simulationData =
     (case simulationData of
        Undefined \<Rightarrow> Inl TypeErrorThrown
      | _ \<Rightarrow>
        let csvData = (case simulationData of
                         JsString s \<Rightarrow> s | JsOther t j \<Rightarrow> j | Undefined \<Rightarrow> []);
            lines = csvLines csvData
        in if length lines < 2 then Inl NoSimulationRows
           else
             let headers = cells (hd lines);
                 yearIndex = findIndex isYearHeader headers;
                 stepIndex = findIndex isStepHeader headers;
                 treesIndex = findIndex isTreesHeader headers;
                 debrisIndex = findIndex isDebrisHeader headers
             in case (yearIndex, stepIndex, treesIndex, debrisIndex) of
                  (Some yi, Some si, Some ti, Some di) \<Rightarrow>
                    Inr (points_loop yi si ti di [] (tl lines))
                | _ \<Rightarrow> Inl ChartColumnsNotFound)"

definition extractStepCarbonChanges ::
  "js_value \<Rightarrow> CarbonAnalysisRange \<Rightarrow> failure + StepCarbonChange list" where
  "extractStepCarbonChanges simulationData analysisRange =
     (case chart_points simulationData of
        Inl e \<Rightarrow> Inl e
      | Inr unsorted \<Rightarrow>
         (let points = sortPoints unsorted
          in if length points < 2 then Inl NotEnoughDataPoints
             else
               let startPoint = jmin (toStepPoint (startYear analysisRange) (startStepInYear analysisRange))
                                     (toStepPoint (endYear analysisRange) (endStepInYear analysisRange));
                   endPoint = jmax (toStepPoint (startYear analysisRange) (startStepInYear analysisRange))
                                   (toStepPoint (endYear analysisRange) (endStepInYear analysisRange));
                   changes = changes_loop startPoint endPoint points 1 []
               in if changes = [] then Inl NoStepChanges else Inr changes))"

section \<open>getSharedTickIndices\<close>

text \<open>
  The set is built by one pass over \<open>0 .. seriesLength - 1\<close>; it is kept as the list of
  its members in insertion order.
\<close>

function tick_loop :: "int \<Rightarrow> int \<Rightarrow> int \<Rightarrow> int list \<Rightarrow> int list" where
  "tick_loop xTickStep seriesLength index indices =
     (if index < seriesLength
      then tick_loop xTickStep seriesLength (index + 1)
             (if index mod xTickStep = 0 \<or> index = seriesLength - 1
              then indices @ [index] else indices)
      else indices)"
  by pat_completeness auto
termination
  by (relation "measure (\<lambda>(s, n, i, acc). nat (n - i))") auto

declare tick_loop.simps [simp del]

definition getSharedTickIndices :: "int \<Rightarrow> int list" where
  "getSharedTickIndices seriesLength =
     (if seriesLength < 1 then []
      else let xTickStep = max 1 \<lceil>(of_int seriesLength :: rat) / 8\<rceil>
           in tick_loop xTickStep seriesLength 0 [])"

section \<open>buildCumulativeSequestrationSeries\<close>

record CumulativeCarbonPoint =
  point_label :: string
  total :: number

text \<open>The callback of \<open>map\<close> adds to \<open>runningTotal\<close>, a variable outside it.\<close>

fun cumulative_loop :: "number \<Rightarrow> StepCarbonChange list \<Rightarrow> CumulativeCarbonPoint list" where
  "cumulative_loop runningTotal [] = []"
| "cumulative_loop runningTotal (change # rest) =
     (let runningTotal' = jadd runningTotal (delta change)
      in \<lparr>point_label = label change, total = parseFloat (toFixed 10 runningTotal')\<rparr>
           # cumulative_loop runningTotal' rest)"

definition buildCumulativeSequestrationSeries ::
  "StepCarbonChange list \<Rightarrow> CumulativeCarbonPoint list" where
  "buildCumulativeSequestrationSeries changes =
     (if changes = [] then [] else cumulative_loop (Fin 0) changes)"

section \<open>Example exports\<close>

text \<open>The export of the specification's example: a header row and two data rows.\<close>

definition example_header :: string where
  "example_header =
     ''Year,Step in Year,Dec. Year,C mass of trees (tC/ha),C mass of forest debris (tC/ha)''"

definition example_export :: string where
  "example_export =
     example_header @ CHR 0x0A # ''2024,1,2024.0,10.0,2.0'' @ CHR 0x0A # ''2024,2,2024.083,10.5,2.1''"

text \<open>The same header with a single data row.\<close>

definition one_row_export :: string where
  "one_row_export = example_header @ CHR 0x0A # ''2024,1,2024.0,10.0,2.0''"

text \<open>
  An export with a sixth column after the required ones; its second data row stops
  after the fifth field.
\<close>

definition short_row_export :: string where
  "short_row_export =
     example_header @ '',Note'' @ CHR 0x0A # ''2024,1,2024.0,10.0,2.0,ok''
       @ CHR 0x0A # ''2024,2,2024.083,10.5,2.1''"

text \<open>Two rows at the same distance from 2025, and two rows three years apart.\<close>

definition tie_export :: string where
  "tie_export =
     ''Dec. Year,C mass of trees (tC/ha)'' @ CHR 0x0A # ''2024.0,10.0'' @ CHR 0x0A # ''2026.0,12.0''"

definition three_year_export :: string where
  "three_year_export =
     ''Dec. Year,C mass of trees (tC/ha)'' @ CHR 0x0A # ''2024.0,10.0'' @ CHR 0x0A # ''2027.0,11.0''"

text \<open>An export whose only data row has no number in it.\<close>

definition no_number_export :: string where
  "no_number_export = ''Dec. Year,C mass of trees (tC/ha)'' @ CHR 0x0A # ''n/a,n/a''"

definition response_of :: "string \<Rightarrow> SimulationResponse" where
  "response_of csv = \<lparr>success = True, data = JsString csv, error = None\<rparr>"

text \<open>An export whose only data row has \<open>Infinity\<close> for its decimal year.\<close>

definition infinity_export :: string where
  "infinity_export = ''Dec. Year,C mass of trees (tC/ha)'' @ CHR 0x0A # ''Infinity,10.0''"

text \<open>Two rows one month apart, with carbon values 50 apart.\<close>

definition one_month_export :: string where
  "one_month_export =
     ''Dec. Year,C mass of trees (tC/ha)'' @ CHR 0x0A # ''2024.0,10.0'' @ CHR 0x0A # ''2024.083,60.0''"

text \<open>Two rows whose decimal years read 2048.01 and 2047.99.\<close>

definition close_years_export :: string where
  "close_years_export =
     ''Dec. Year,C mass of trees (tC/ha)'' @ CHR 0x0A # ''2048.01,1.0'' @ CHR 0x0A # ''2047.99,2.0''"

text \<open>An export whose second data row has a year of 22 digits and \<open>Infinity\<close> for the tree carbon.\<close>

definition large_year_export :: string where
  "large_year_export =
     example_header @ CHR 0x0A # ''999,1,999.0,10.0,2.0''
       @ CHR 0x0A # ''1000000000000000000000,1,2024.0,Infinity,2.1''"

section \<open>Rounding to a double\<close>

lemma countDigits_pos: "1 \<le> countDigits b n"
proof (induction b n rule: countDigits.induct)
  case (1 b n)
  then show ?case by (subst countDigits.simps) auto
qed

lemma countDigits_bounds:
  assumes "2 \<le> b" "1 \<le> n"
  shows "b ^ nat (countDigits b n - 1) \<le> n \<and> n < b ^ nat (countDigits b n)"
  using assms
proof (induction b n rule: countDigits.induct)
  case (1 b n)
  show ?case
  proof (cases "n < b")
    case True
    then have "countDigits b n = 1" by (subst countDigits.simps) simp
    then show ?thesis using True 1(3) by simp
  next
    case False
    with 1(2) have nb: "\<not> (b < 2 \<or> n < b)" by simp
    have c: "countDigits b n = 1 + countDigits b (n div b)"
      using nb by (subst countDigits.simps) simp
    have b0: "0 < b" using 1(2) by simp
    have dm: "b * (n div b) + n mod b = n" by (rule mult_div_mod_eq)
    have m: "0 \<le> n mod b" "n mod b < b" using b0 by simp_all
    have q: "1 \<le> n div b"
    proof (rule ccontr)
      assume "\<not> 1 \<le> n div b"
      then have "n div b \<le> 0" by simp
      then have "b * (n div b) \<le> 0" using b0 by (simp add: mult_le_0_iff)
      with dm m False show False by linarith
    qed
    from 1(1) [OF nb 1(2) q]
    have ih: "b ^ nat (countDigits b (n div b) - 1) \<le> n div b"
      "n div b < b ^ nat (countDigits b (n div b))" by simp_all
    let ?c = "countDigits b (n div b)"
    have cpos: "1 \<le> ?c" by (rule countDigits_pos)
    have "nat ?c = Suc (nat (?c - 1))" using cpos by simp
    then have e1: "b ^ nat ?c = b * b ^ nat (?c - 1)" by simp
    have "nat (1 + ?c) = Suc (nat ?c)" using cpos by simp
    then have e2: "b ^ nat (1 + ?c) = b * b ^ nat ?c" by simp
    have "b * b ^ nat (?c - 1) \<le> b * (n div b)"
      using ih(1) b0 by simp
    also have "\<dots> \<le> n" using dm m by linarith
    finally have lo: "b ^ nat (countDigits b n - 1) \<le> n" by (simp add: c e1)
    have "n div b + 1 \<le> b ^ nat ?c" using ih(2) by simp
    then have "b * (n div b + 1) \<le> b * b ^ nat ?c" using b0 by simp
    moreover have "n < b * (n div b + 1)"
    proof -
      have "b * (n div b + 1) = b * (n div b) + b" by (simp add: distrib_left)
      then show ?thesis using mult_div_mod_eq [of b n] m by linarith
    qed
    ultimately have hi: "n < b ^ nat (countDigits b n)" by (simp only: c e2)
    show ?thesis using lo hi by simp
  qed
qed

lemma ilog_lower:
  assumes b: "2 \<le> b" and a: "0 < a"
  shows "of_int b powi (ilog b a) \<le> a"
proof -
  obtain p q where pq: "quotient_of a = (p, q)" by (cases "quotient_of a")
  have q0: "0 < q" using pq by (rule quotient_of_denom_pos)
  have av: "a = of_int p / of_int q" using pq by (rule quotient_of_div)
  have p0: "0 < p" using a q0 unfolding av by (simp add: zero_less_divide_iff)
  let ?k = "countDigits b p - countDigits b q"
  show ?thesis
  proof (cases "of_int b powi ?k \<le> a")
    case True
    then show ?thesis by (simp add: ilog_def pq)
  next
    case False
    then have il: "ilog b a = ?k - 1" by (simp add: ilog_def pq)
    let ?P = "nat (countDigits b p - 1)" and ?Q = "nat (countDigits b q)"
    have bp: "b ^ ?P \<le> p" using countDigits_bounds [OF b, of p] p0 by simp
    have bq: "q < b ^ ?Q" using countDigits_bounds [OF b, of q] q0 by simp
    have B0: "(0::rat) < of_int b" using b by simp
    have "(of_int b :: rat) ^ ?P \<le> of_int p"
      using bp by (metis of_int_le_iff of_int_power)
    moreover have "(of_int q :: rat) \<le> of_int b ^ ?Q"
      using bq by (metis less_imp_le of_int_le_iff of_int_power)
    moreover have "(0::rat) < of_int q" using q0 by simp
    moreover have "(0::rat) \<le> of_int p" using p0 by simp
    ultimately have "(of_int b :: rat) ^ ?P / of_int b ^ ?Q \<le> of_int p / of_int q"
      using B0 by (intro frac_le) simp_all
    moreover have "(of_int b :: rat) powi (?k - 1) = of_int b ^ ?P / of_int b ^ ?Q"
    proof -
      have "?k - 1 = int ?P - int ?Q"
        using countDigits_pos [of b p] countDigits_pos [of b q] by simp
      then have "(of_int b :: rat) powi (?k - 1) = of_int b powi (int ?P - int ?Q)" by simp
      also have "\<dots> = of_int b powi int ?P / of_int b powi int ?Q"
        using B0 by (intro power_int_diff) simp
      also have "\<dots> = of_int b ^ ?P / of_int b ^ ?Q"
        by (simp only: power_int_of_nat)
      finally show ?thesis .
    qed
    ultimately have "(of_int b :: rat) powi (?k - 1) \<le> of_int p / of_int q" by simp
    then have "(of_int b :: rat) powi (?k - 1) \<le> a" by (simp only: av)
    then show ?thesis by (simp only: il)
  qed
qed

lemma roundEven_near: "\<bar>of_int (roundEven m) - m\<bar> \<le> 1 / 2"
proof -
  have "of_int \<lfloor>m\<rfloor> \<le> m" "m < of_int \<lfloor>m\<rfloor> + 1" by linarith+
  then show ?thesis by (auto simp: roundEven_def Let_def)
qed

lemma roundEven_ge1: "1 \<le> m \<Longrightarrow> 1 \<le> roundEven m"
proof -
  assume "1 \<le> m"
  then have "1 \<le> \<lfloor>m\<rfloor>" by simp
  then show ?thesis by (auto simp: roundEven_def Let_def)
qed

lemma roundEven_nonneg: "0 \<le> m \<Longrightarrow> 0 \<le> roundEven m"
proof -
  assume "0 \<le> m"
  then have "0 \<le> \<lfloor>m\<rfloor>" by simp
  then show ?thesis by (auto simp: roundEven_def Let_def)
qed

lemma rd_neg: "rd (- x) = jneg (rd x)"
proof -
  have j: "jneg (jneg y) = y" for y by (cases y) simp_all
  show ?thesis
    by (cases "x = 0"; cases "x < 0") (simp_all add: rd_def j)
qed

lemma rd_zero [simp]: "rd 0 = Fin 0"
  by (simp add: rd_def)

lemma roundPositive_cases:
  obtains "roundPositive a = PInf"
  | "roundPositive a = Fin (of_int (mantissaOf a) * 2 powi exponentOf a)"
proof (cases "971 < exponentOf a \<or> (exponentOf a = 971 \<and> 2 ^ 53 \<le> mantissaOf a)")
  case True
  then have "roundPositive a = PInf" by (simp only: roundPositive_def if_True)
  then show ?thesis by (rule that(1))
next
  case False
  then have "roundPositive a = Fin (of_int (mantissaOf a) * 2 powi exponentOf a)"
    by (simp only: roundPositive_def if_False)
  then show ?thesis by (rule that(2))
qed

lemma exponentOf_ge: "- 1074 \<le> exponentOf a"
  by (simp add: exponentOf_def)

lemma grid_power: "- 1074 \<le> e \<Longrightarrow> (2::rat) powi e = of_int (2 ^ nat (e + 1074)) * 2 powi (- 1074)"
proof -
  assume e: "- 1074 \<le> e"
  have "(2::rat) powi e = 2 powi ((e + 1074) + (- 1074))" by simp
  also have "\<dots> = 2 powi (e + 1074) * 2 powi (- 1074)"
    by (rule power_int_add) simp
  also have "(2::rat) powi (e + 1074) = of_int (2 ^ nat (e + 1074))"
    using e by (simp add: power_int_def)
  finally show ?thesis .
qed

lemma roundPositive_grid:
  assumes "roundPositive a = Fin r"
  shows "\<exists>k::int. r = of_int k * 2 powi (- 1074)"
proof (cases a rule: roundPositive_cases)
  case 1
  with assms show ?thesis by simp
next
  case 2
  with assms have "r = of_int (mantissaOf a) * 2 powi exponentOf a" by simp
  also have "\<dots> = of_int (mantissaOf a * 2 ^ nat (exponentOf a + 1074)) * 2 powi (- 1074)"
    by (subst grid_power [OF exponentOf_ge]) simp
  finally show ?thesis by blast
qed

lemma rd_grid:
  assumes "rd x = Fin r"
  shows "\<exists>k::int. r = of_int k * 2 powi (- 1074)"
proof -
  consider "x = 0" | "x < 0" | "0 < x" by linarith
  then show ?thesis
  proof cases
    case 1
    with assms have "r = of_int 0 * 2 powi (- 1074)" by simp
    then show ?thesis by blast
  next
    case 2
    with assms have j: "jneg (roundPositive (- x)) = Fin r" by (simp add: rd_def)
    then obtain r' where r': "roundPositive (- x) = Fin r'" "r = - r'"
      by (cases "roundPositive (- x)") auto
    from roundPositive_grid [OF r'(1)] obtain k :: int where "r' = of_int k * 2 powi (- 1074)"
      by blast
    then have "r = of_int (- k) * 2 powi (- 1074)" using r'(2) by simp
    then show ?thesis by blast
  next
    case 3
    with assms have "roundPositive x = Fin r" by (simp add: rd_def)
    then show ?thesis by (rule roundPositive_grid)
  qed
qed

lemma exponentOf_le:
  assumes "2 powi (- 1074) \<le> a"
  shows "2 powi exponentOf a \<le> a"
proof -
  have u: "(0::rat) < 2 powi (- 1074)" by simp
  with assms have a0: "0 < a" by linarith
  show ?thesis
  proof (cases "ilog 2 a - 52 \<le> - 1074")
    case True
    then have "exponentOf a = - 1074" by (simp add: exponentOf_def)
    with assms show ?thesis by simp
  next
    case False
    then have "exponentOf a = ilog 2 a - 52" by (simp add: exponentOf_def)
    then have "(2::rat) powi exponentOf a \<le> 2 powi (ilog 2 a)"
      by (intro power_int_increasing) simp_all
    also have "\<dots> \<le> a" using ilog_lower [of 2 a] a0 by simp
    finally show ?thesis .
  qed
qed

lemma mantissaOf_pos:
  assumes "2 powi (- 1074) \<le> a"
  shows "1 \<le> mantissaOf a"
proof -
  have pe: "(0::rat) < 2 powi exponentOf a" by simp
  have "1 \<le> a / 2 powi exponentOf a"
    using exponentOf_le [OF assms] pe by (simp add: le_divide_eq)
  then show ?thesis unfolding mantissaOf_def by (rule roundEven_ge1)
qed

lemma roundPositive_pos:
  assumes "2 powi (- 1074) \<le> a"
  shows "jless (Fin 0) (roundPositive a)"
proof (cases a rule: roundPositive_cases)
  case 1
  then show ?thesis by simp
next
  case 2
  have "(0::rat) < of_int (mantissaOf a) * 2 powi exponentOf a"
    using mantissaOf_pos [OF assms] by (simp add: zero_less_mult_iff)
  with 2 show ?thesis by simp
qed

lemma roundPositive_nonneg:
  assumes "0 \<le> a"
  shows "\<not> jless (roundPositive a) (Fin 0)"
proof (cases a rule: roundPositive_cases)
  case 1
  then show ?thesis by simp
next
  case 2
  have "0 \<le> a / 2 powi exponentOf a" using assms by simp
  then have "0 \<le> mantissaOf a" unfolding mantissaOf_def by (rule roundEven_nonneg)
  then have "(0::rat) \<le> of_int (mantissaOf a) * 2 powi exponentOf a" by simp
  with 2 show ?thesis by simp
qed

lemma rd_pos:
  assumes "2 powi (- 1074) \<le> x"
  shows "jless (Fin 0) (rd x)"
proof -
  have u: "(0::rat) < 2 powi (- 1074)" by simp
  with assms have x0: "0 < x" by linarith
  then show ?thesis using roundPositive_pos [OF assms] by (simp add: rd_def)
qed

lemma rd_nonpos:
  assumes "x \<le> 0"
  shows "\<not> jless (Fin 0) (rd x)"
proof (cases "x = 0")
  case True
  then show ?thesis by simp
next
  case False
  with assms have x0: "x < 0" by simp
  then have "0 \<le> - x" by simp
  from roundPositive_nonneg [OF this] have "\<not> jless (Fin 0) (jneg (roundPositive (- x)))"
    by (cases "roundPositive (- x)") simp_all
  then show ?thesis using x0 by (simp add: rd_def)
qed

section \<open>The order of numbers\<close>

lemma jless_irrefl [simp]: "\<not> jless x x"
  by (cases x) simp_all

lemma jless_trans: "jless x y \<Longrightarrow> jless y z \<Longrightarrow> jless x z"
  by (cases x; cases y; cases z) simp_all

lemma jless_not_NaN: "jless x y \<Longrightarrow> \<not> isNaN x \<and> \<not> isNaN y"
  by (cases x; cases y) simp_all

lemma jless_below: "jless x y \<Longrightarrow> \<not> jless z y \<Longrightarrow> \<not> isNaN z \<Longrightarrow> jless x z"
  by (cases x; cases y; cases z) simp_all

lemma not_below_PInf: "\<not> jless d PInf \<Longrightarrow> \<not> jless d x"
  by (cases d; cases x) simp_all

lemma jless_total: "\<not> isNaN x \<Longrightarrow> \<not> isNaN y \<Longrightarrow> \<not> jless x y \<Longrightarrow> \<not> jless y x \<Longrightarrow> x = y"
  by (cases x; cases y) simp_all

lemma jmin_commute: "jmin x y = jmin y x"
  by (cases x; cases y) (auto simp: jmin_def)

lemma jmax_commute: "jmax x y = jmax y x"
  by (cases x; cases y) (auto simp: jmax_def)

section \<open>The scan of calculateCarbonSequestration\<close>

lemma scan_loop_records:
  "scan_loop di ci s e st rows = foldl (scan_update s e) st (List.map_filter (seq_row di ci) rows)"
  by (induction rows arbitrary: st) (simp_all add: List.map_filter_simps split: option.split)

lemma scan_loop_append:
  "scan_loop di ci s e st (xs @ ys) = scan_loop di ci s e (scan_loop di ci s e st xs) ys"
  by (induction xs arbitrary: st) (simp_all split: option.split)

lemma scan_update_start:
  "s_startCarbon (scan_update s e st x) =
     (if jless (distance s x) (closestStartDiff st) then Some (snd x) else s_startCarbon st)"
  "closestStartDiff (scan_update s e st x) =
     (if jless (distance s x) (closestStartDiff st) then distance s x else closestStartDiff st)"
  by (simp_all add: scan_update_def distance_def Let_def)

lemma scan_update_end:
  "s_endCarbon (scan_update s e st x) =
     (if jless (distance e x) (closestEndDiff st) then Some (snd x) else s_endCarbon st)"
  "closestEndDiff (scan_update s e st x) =
     (if jless (distance e x) (closestEndDiff st) then distance e x else closestEndDiff st)"
  by (simp_all add: scan_update_def distance_def Let_def)

lemma nth_snoc_old: "k < length xs \<Longrightarrow> (xs @ [x]) ! k = xs ! k"
  by (simp add: nth_append)

lemma first_nearest_last:
  assumes rx: "reachable t x"
    and a: "\<And>k. k < length recs \<Longrightarrow> \<not> jless (distance t (recs ! k)) (distance t x)"
    and b: "\<And>k. k < length recs \<Longrightarrow> reachable t (recs ! k) \<Longrightarrow>
               jless (distance t x) (distance t (recs ! k))"
  shows "first_nearest (recs @ [x]) t (length recs)"
  unfolding first_nearest_def
proof (intro conjI ballI impI)
  show "length recs < length (recs @ [x])" by simp
  show "reachable t ((recs @ [x]) ! length recs)" using rx by simp
next
  fix k assume "k \<in> {..<length (recs @ [x])}"
  then consider "k < length recs" | "k = length recs" by fastforce
  then show "\<not> jless (distance t ((recs @ [x]) ! k)) (distance t ((recs @ [x]) ! length recs))"
  proof cases
    case 1
    then show ?thesis using a [OF 1] by (simp add: nth_snoc_old)
  next
    case 2
    then show ?thesis by simp
  qed
next
  fix k assume k: "k \<in> {..<length recs}" and r: "reachable t ((recs @ [x]) ! k)"
  then have kl: "k < length recs" by simp
  with r have "reachable t (recs ! k)" by (simp add: nth_snoc_old)
  from b [OF kl this]
  show "jless (distance t ((recs @ [x]) ! length recs)) (distance t ((recs @ [x]) ! k))"
    using kl by (simp add: nth_snoc_old)
qed

lemma first_nearest_first:
  assumes none: "\<forall>r \<in> set recs. \<not> reachable t r" and rx: "reachable t x"
  shows "first_nearest (recs @ [x]) t (length recs)"
proof (rule first_nearest_last [OF rx])
  fix k assume k: "k < length recs"
  then have "\<not> reachable t (recs ! k)" using none by simp
  then show "\<not> jless (distance t (recs ! k)) (distance t x)"
    unfolding reachable_def by (rule not_below_PInf)
next
  fix k assume "k < length recs" "reachable t (recs ! k)"
  then show "jless (distance t x) (distance t (recs ! k))" using none by simp
qed

lemma first_nearest_snoc_new:
  assumes i: "first_nearest recs t i" and lt: "jless (distance t x) (distance t (recs ! i))"
  shows "first_nearest (recs @ [x]) t (length recs)"
proof (rule first_nearest_last)
  have ri: "jless (distance t (recs ! i)) PInf"
    using i by (simp add: first_nearest_def reachable_def)
  show "reachable t x"
    unfolding reachable_def using lt ri by (rule jless_trans)
next
  fix k assume k: "k < length recs"
  have n: "\<not> jless (distance t (recs ! k)) (distance t (recs ! i))"
    using i k by (simp add: first_nearest_def)
  show "\<not> jless (distance t (recs ! k)) (distance t x)"
  proof
    assume "jless (distance t (recs ! k)) (distance t x)"
    then have "jless (distance t (recs ! k)) (distance t (recs ! i))"
      using lt by (rule jless_trans)
    with n show False by simp
  qed
next
  fix k assume k: "k < length recs" and r: "reachable t (recs ! k)"
  have n: "\<not> jless (distance t (recs ! k)) (distance t (recs ! i))"
    using i k by (simp add: first_nearest_def)
  have "\<not> isNaN (distance t (recs ! k))"
    using r jless_not_NaN [of "distance t (recs ! k)" PInf] by (simp add: reachable_def)
  with lt n show "jless (distance t x) (distance t (recs ! k))"
    by (rule jless_below)
qed

lemma first_nearest_snoc_keep:
  assumes i: "first_nearest recs t i" and no: "\<not> jless (distance t x) (distance t (recs ! i))"
  shows "first_nearest (recs @ [x]) t i"
proof -
  have il: "i < length recs" using i by (simp add: first_nearest_def)
  show ?thesis
    unfolding first_nearest_def
  proof (intro conjI ballI impI)
    show "i < length (recs @ [x])" using il by simp
    show "reachable t ((recs @ [x]) ! i)"
      using i il by (simp add: first_nearest_def nth_snoc_old)
  next
    fix k assume "k \<in> {..<length (recs @ [x])}"
    then consider "k < length recs" | "k = length recs" by fastforce
    then show "\<not> jless (distance t ((recs @ [x]) ! k)) (distance t ((recs @ [x]) ! i))"
    proof cases
      case 1
      then show ?thesis using i il by (simp add: first_nearest_def nth_snoc_old)
    next
      case 2
      then show ?thesis using no il by (simp add: nth_snoc_old)
    qed
  next
    fix k assume k: "k \<in> {..<i}" and r: "reachable t ((recs @ [x]) ! k)"
    then have kl: "k < length recs" "k < i" using il by simp_all
    with r have "reachable t (recs ! k)" by (simp add: nth_snoc_old)
    then have "jless (distance t (recs ! i)) (distance t (recs ! k))"
      using i kl by (simp add: first_nearest_def)
    then show "jless (distance t ((recs @ [x]) ! i)) (distance t ((recs @ [x]) ! k))"
      using kl il by (simp add: nth_snoc_old)
  qed
qed

lemma resolved_step:
  assumes "resolved recs t c d"
  shows "resolved (recs @ [x]) t
           (if jless (distance t x) d then Some (snd x) else c)
           (if jless (distance t x) d then distance t x else d)"
proof (cases "\<forall>r \<in> set recs. \<not> reachable t r")
  case True
  with assms have cd: "c = None" "d = PInf" by (simp_all add: resolved_def)
  show ?thesis
  proof (cases "reachable t x")
    case rx: True
    then have l: "jless (distance t x) d" by (simp add: cd reachable_def)
    have ex: "\<not> (\<forall>r \<in> set (recs @ [x]). \<not> reachable t r)" using rx by simp
    have "first_nearest (recs @ [x]) t (length recs) \<and>
          Some (snd x) = Some (snd ((recs @ [x]) ! length recs)) \<and>
          distance t x = distance t ((recs @ [x]) ! length recs)"
      using first_nearest_first [OF True rx] by simp
    then show ?thesis
      unfolding resolved_def using l ex by (simp only: if_True if_False) blast
  next
    case False
    then have l: "\<not> jless (distance t x) d" by (simp add: cd reachable_def)
    have "\<forall>r \<in> set (recs @ [x]). \<not> reachable t r" using True False by simp
    then show ?thesis
      unfolding resolved_def using l cd by (simp only: if_True if_False) simp
  qed
next
  case False
  with assms obtain i where i: "first_nearest recs t i" "c = Some (snd (recs ! i))"
    "d = distance t (recs ! i)"
    unfolding resolved_def by (simp only: if_False) blast
  have il: "i < length recs" using i(1) by (simp add: first_nearest_def)
  have ex: "\<not> (\<forall>r \<in> set (recs @ [x]). \<not> reachable t r)" using False by simp
  show ?thesis
  proof (cases "jless (distance t x) d")
    case True
    then have "jless (distance t x) (distance t (recs ! i))" by (simp add: i(3))
    from first_nearest_snoc_new [OF i(1) this]
    have "first_nearest (recs @ [x]) t (length recs) \<and>
          Some (snd x) = Some (snd ((recs @ [x]) ! length recs)) \<and>
          distance t x = distance t ((recs @ [x]) ! length recs)" by simp
    then show ?thesis
      unfolding resolved_def using True ex by (simp only: if_True if_False) blast
  next
    case no: False
    then have "\<not> jless (distance t x) (distance t (recs ! i))" by (simp add: i(3))
    from first_nearest_snoc_keep [OF i(1) this]
    have "first_nearest (recs @ [x]) t i \<and>
          c = Some (snd ((recs @ [x]) ! i)) \<and>
          d = distance t ((recs @ [x]) ! i)"
      using i(2,3) il by (simp add: nth_snoc_old)
    then show ?thesis
      unfolding resolved_def using no ex by (simp only: if_True if_False) blast
  qed
qed

section \<open>The result of the scan\<close>

lemma scan_records_resolved:
  "resolved recs s (s_startCarbon (foldl (scan_update s e) scan_init recs))
                   (closestStartDiff (foldl (scan_update s e) scan_init recs)) \<and>
   resolved recs e (s_endCarbon (foldl (scan_update s e) scan_init recs))
                   (closestEndDiff (foldl (scan_update s e) scan_init recs))"
proof (induction recs rule: rev_induct)
  case Nil
  show ?case by (simp add: resolved_def scan_init_def)
next
  case (snoc x recs)
  let ?st = "foldl (scan_update s e) scan_init recs"
  from snoc have a: "resolved recs s (s_startCarbon ?st) (closestStartDiff ?st)"
    and b: "resolved recs e (s_endCarbon ?st) (closestEndDiff ?st)" by simp_all
  show ?case
    using resolved_step [OF a, of x] resolved_step [OF b, of x]
    by (simp add: scan_update_start scan_update_end)
qed

lemma calculate_by_usable_rows:
  "calculateCarbonSequestration resp s e =
     (case usable_rows resp of
        Inl f \<Rightarrow> Inl f
      | Inr recs \<Rightarrow>
         (case (s_startCarbon (foldl (scan_update s e) scan_init recs),
                s_endCarbon (foldl (scan_update s e) scan_init recs)) of
            (Some a, Some b) \<Rightarrow>
              Inr \<lparr>totalCarbon = parseFloat (toFixed 10 (jsub b a)),
                   startCarbon = parseFloat (toFixed 10 a),
                   endCarbon = parseFloat (toFixed 10 b), dataPoints = 2\<rparr>
          | _ \<Rightarrow> Inl NoCarbonValues))"
  by (simp add: calculateCarbonSequestration_def usable_rows_def Let_def scan_loop_records
           split: option.split)

lemma calculate_unreachable:
  assumes "usable_rows resp = Inr recs"
    and "(\<forall>r \<in> set recs. \<not> reachable s r) \<or> (\<forall>r \<in> set recs. \<not> reachable e r)"
  shows "calculateCarbonSequestration resp s e = Inl NoCarbonValues"
proof -
  let ?st = "foldl (scan_update s e) scan_init recs"
  from scan_records_resolved [of recs s e] assms(2)
  have "s_startCarbon ?st = None \<or> s_endCarbon ?st = None"
    unfolding resolved_def by (auto split: if_splits)
  then show ?thesis
    using assms(1) by (auto simp: calculate_by_usable_rows split: option.split)
qed

lemma calculate_reachable:
  assumes "usable_rows resp = Inr recs"
    and "\<exists>r \<in> set recs. reachable s r" and "\<exists>r \<in> set recs. reachable e r"
  shows "\<exists>i j. first_nearest recs s i \<and> first_nearest recs e j \<and>
           calculateCarbonSequestration resp s e =
             Inr \<lparr>totalCarbon = parseFloat (toFixed 10 (jsub (snd (recs ! j)) (snd (recs ! i)))),
                  startCarbon = parseFloat (toFixed 10 (snd (recs ! i))),
                  endCarbon = parseFloat (toFixed 10 (snd (recs ! j))), dataPoints = 2\<rparr>"
proof -
  let ?st = "foldl (scan_update s e) scan_init recs"
  have ns: "\<not> (\<forall>r \<in> set recs. \<not> reachable s r)" using assms(2) by blast
  have ne: "\<not> (\<forall>r \<in> set recs. \<not> reachable e r)" using assms(3) by blast
  from scan_records_resolved [of recs s e]
  have "\<exists>i. first_nearest recs s i \<and> s_startCarbon ?st = Some (snd (recs ! i))"
    and "\<exists>j. first_nearest recs e j \<and> s_endCarbon ?st = Some (snd (recs ! j))"
    unfolding resolved_def using ns ne by (simp_all only: if_False) blast+
  then obtain i j where i: "first_nearest recs s i" "s_startCarbon ?st = Some (snd (recs ! i))"
    and j: "first_nearest recs e j" "s_endCarbon ?st = Some (snd (recs ! j))"
    by blast
  have "calculateCarbonSequestration resp s e =
             Inr \<lparr>totalCarbon = parseFloat (toFixed 10 (jsub (snd (recs ! j)) (snd (recs ! i)))),
                  startCarbon = parseFloat (toFixed 10 (snd (recs ! i))),
                  endCarbon = parseFloat (toFixed 10 (snd (recs ! j))), dataPoints = 2\<rparr>"
    using assms(1) i(2) j(2) by (simp add: calculate_by_usable_rows)
  with i(1) j(1) show ?thesis by blast
qed

section \<open>Usable rows and the result of the sequestration call\<close>

text \<open>
  C1, as stated, fails: the export with the header row and one valid data row has a
  single usable row, and the call succeeds on it, with the one row resolved for both
  dates.
\<close>

theorem sequestration_one_row_succeeds:
  "usable_rows (response_of one_row_export) = Inr [(Fin 2024, Fin 10)] \<and>
   length [(Fin 2024, Fin 10)] < 2 \<and>
   calculateCarbonSequestration (response_of one_row_export) (Fin 2024) (Fin 2025) =
     Inr \<lparr>totalCarbon = Fin 0, startCarbon = Fin 10, endCarbon = Fin 10, dataPoints = 2\<rparr>"
proof -
  have "usable_rows (response_of one_row_export) = Inr [(Fin 2024, Fin 10)]" by code_simp
  moreover have "calculateCarbonSequestration (response_of one_row_export) (Fin 2024) (Fin 2025) =
     Inr \<lparr>totalCarbon = Fin 0, startCarbon = Fin 10, endCarbon = Fin 10, dataPoints = 2\<rparr>"
    by code_simp
  ultimately show ?thesis by simp
qed

text \<open>
  C1, amended. The call fails when the scan is never reached, with the failure of the
  first check that does not pass, and when there is no usable row, with the
  missing-carbon-values failure. When there are usable rows, it succeeds exactly when one
  of them lies at a finite distance from the start date and one at a finite distance
  from the end date, the distance being the absolute difference of the two doubles as
  the program computes it. One usable row with a finite decimal year is enough for a
  success with finite dates; a row whose decimal year is \<open>Infinity\<close> is usable and is
  never resolved.
\<close>

theorem sequestration_fails_without_usable_row:
  "(usable_rows resp = Inr [] \<longrightarrow> calculateCarbonSequestration resp s e = Inl NoCarbonValues) \<and>
   (usable_rows resp = Inl f \<longrightarrow> calculateCarbonSequestration resp s e = Inl f) \<and>
   (usable_rows resp = Inr recs \<longrightarrow>
      ((\<exists>res. calculateCarbonSequestration resp s e = Inr res) \<longleftrightarrow>
       (\<exists>r \<in> set recs. reachable s r) \<and> (\<exists>r \<in> set recs. reachable e r)))"
proof -
  have a: "calculateCarbonSequestration resp s e = Inl NoCarbonValues" if "usable_rows resp = Inr []"
    using calculate_unreachable [OF that, of s e] by simp
  have b: "calculateCarbonSequestration resp s e = Inl f" if "usable_rows resp = Inl f"
    using that by (simp add: calculate_by_usable_rows)
  have c: "(\<exists>res. calculateCarbonSequestration resp s e = Inr res) \<longleftrightarrow>
       (\<exists>r \<in> set recs. reachable s r) \<and> (\<exists>r \<in> set recs. reachable e r)"
    if u: "usable_rows resp = Inr recs"
  proof
    assume ok: "\<exists>res. calculateCarbonSequestration resp s e = Inr res"
    show "(\<exists>r \<in> set recs. reachable s r) \<and> (\<exists>r \<in> set recs. reachable e r)"
    proof (rule ccontr)
      assume "\<not> ((\<exists>r \<in> set recs. reachable s r) \<and> (\<exists>r \<in> set recs. reachable e r))"
      then have "(\<forall>r \<in> set recs. \<not> reachable s r) \<or> (\<forall>r \<in> set recs. \<not> reachable e r)"
        by blast
      from calculate_unreachable [OF u this] ok show False by simp
    qed
  next
    assume "(\<exists>r \<in> set recs. reachable s r) \<and> (\<exists>r \<in> set recs. reachable e r)"
    then show "\<exists>res. calculateCarbonSequestration resp s e = Inr res"
      using calculate_reachable [OF u, of s e] by blast
  qed
  show ?thesis using a b c by blast
qed

theorem sequestration_fails_without_usable_row_witness:
  "usable_rows (response_of no_number_export) = Inr [] \<and>
   calculateCarbonSequestration (response_of no_number_export) (Fin 2024) (Fin 2025)
     = Inl NoCarbonValues \<and>
   usable_rows \<lparr>success = False, data = Undefined, error = None\<rparr> = Inl InvalidResponse \<and>
   calculateCarbonSequestration \<lparr>success = False, data = Undefined, error = None\<rparr>
     (Fin 2024) (Fin 2025) = Inl InvalidResponse \<and>
   usable_rows (response_of one_row_export) = Inr [(Fin 2024, Fin 10)] \<and>
   reachable (Fin 2024) (Fin 2024, Fin 10) \<and> reachable (Fin 2025) (Fin 2024, Fin 10) \<and>
   (\<exists>res. calculateCarbonSequestration (response_of one_row_export) (Fin 2024) (Fin 2025) = Inr res) \<and>
   usable_rows (response_of infinity_export) = Inr [(PInf, Fin 10)] \<and>
   \<not> reachable (Fin 2024) (PInf, Fin 10) \<and>
   \<not> (\<exists>res. calculateCarbonSequestration (response_of infinity_export) (Fin 2024) (Fin 2025) = Inr res)"
proof -
  have a: "usable_rows (response_of no_number_export) = Inr []" by code_simp
  have b: "usable_rows \<lparr>success = False, data = Undefined, error = None\<rparr> = Inl InvalidResponse"
    by code_simp
  have c: "usable_rows (response_of one_row_export) = Inr [(Fin 2024, Fin 10)]" by code_simp
  have d: "reachable (Fin 2024) (Fin 2024, Fin 10)" "reachable (Fin 2025) (Fin 2024, Fin 10)"
    by code_simp+
  have e: "usable_rows (response_of infinity_export) = Inr [(PInf, Fin 10)]" by code_simp
  have f: "\<not> reachable (Fin 2024) (PInf, Fin 10)" by code_simp
  show ?thesis
    using a b c d e f
      sequestration_fails_without_usable_row [of "response_of no_number_export" "Fin 2024" "Fin 2025"]
      sequestration_fails_without_usable_row
        [of "\<lparr>success = False, data = Undefined, error = None\<rparr>" "Fin 2024" "Fin 2025" InvalidResponse]
      sequestration_fails_without_usable_row
        [of "response_of one_row_export" "Fin 2024" "Fin 2025" _ "[(Fin 2024, Fin 10)]"]
      sequestration_fails_without_usable_row
        [of "response_of infinity_export" "Fin 2024" "Fin 2025" _ "[(PInf, Fin 10)]"]
    by simp
qed

section \<open>Nearest record\<close>

text \<open>
  C4, as stated, fails: the export whose one data row has the decimal year \<open>Infinity\<close>
  gives a non-empty list of usable records, and no record is resolved for the year
  2024. The distance of that row is \<open>Infinity\<close>, which is not strictly below the initial
  best distance \<open>Infinity\<close>, and the call fails.
\<close>

theorem infinite_distance_row_is_not_resolved:
  "usable_rows (response_of infinity_export) = Inr [(PInf, Fin 10)] \<and>
   [(PInf, Fin 10)] \<noteq> [] \<and>
   calculateCarbonSequestration (response_of infinity_export) (Fin 2024) (Fin 2025)
     = Inl NoCarbonValues"
proof -
  have "usable_rows (response_of infinity_export) = Inr [(PInf, Fin 10)]" by code_simp
  moreover have "calculateCarbonSequestration (response_of infinity_export) (Fin 2024) (Fin 2025)
     = Inl NoCarbonValues" by code_simp
  ultimately show ?thesis by simp
qed

text \<open>
  C4, amended. When one usable record lies at a finite distance from the start date and
  one at a finite distance from the end date, the call succeeds, and its start and end
  values are the carbon values (rounded to ten decimals) of the first record nearest to
  the start date and of the first record nearest to the end date. The distance is the
  absolute difference of decimal year and date, computed in double precision; no record
  is nearer, and every earlier record at a finite distance is strictly farther. Inside
  the scan, a record whose distance is not strictly smaller than the best one so far
  changes neither the best distance nor the value, so of two records at the same
  distance the earlier wins.
\<close>

theorem nearest_record_first_minimum:
  assumes rows: "usable_rows resp = Inr recs"
    and rs: "\<exists>r \<in> set recs. reachable s r" and re: "\<exists>r \<in> set recs. reachable e r"
  shows "(\<exists>i j. first_nearest recs s i \<and> first_nearest recs e j \<and>
            calculateCarbonSequestration resp s e =
              Inr \<lparr>totalCarbon = parseFloat (toFixed 10 (jsub (snd (recs ! j)) (snd (recs ! i)))),
                   startCarbon = parseFloat (toFixed 10 (snd (recs ! i))),
                   endCarbon = parseFloat (toFixed 10 (snd (recs ! j))), dataPoints = 2\<rparr>) \<and>
         (\<not> jless (distance s x) (closestStartDiff st) \<longrightarrow>
            s_startCarbon (scan_update s e st x) = s_startCarbon st \<and>
            closestStartDiff (scan_update s e st x) = closestStartDiff st) \<and>
         (\<not> jless (distance e x) (closestEndDiff st) \<longrightarrow>
            s_endCarbon (scan_update s e st x) = s_endCarbon st \<and>
            closestEndDiff (scan_update s e st x) = closestEndDiff st)"
proof -
  have a: "\<exists>i j. first_nearest recs s i \<and> first_nearest recs e j \<and>
            calculateCarbonSequestration resp s e =
              Inr \<lparr>totalCarbon = parseFloat (toFixed 10 (jsub (snd (recs ! j)) (snd (recs ! i)))),
                   startCarbon = parseFloat (toFixed 10 (snd (recs ! i))),
                   endCarbon = parseFloat (toFixed 10 (snd (recs ! j))), dataPoints = 2\<rparr>"
    using rows rs re by (rule calculate_reachable)
  have b: "s_startCarbon (scan_update s e st x) = s_startCarbon st \<and>
            closestStartDiff (scan_update s e st x) = closestStartDiff st"
    if "\<not> jless (distance s x) (closestStartDiff st)"
    using that by (simp add: scan_update_start)
  have c: "s_endCarbon (scan_update s e st x) = s_endCarbon st \<and>
            closestEndDiff (scan_update s e st x) = closestEndDiff st"
    if "\<not> jless (distance e x) (closestEndDiff st)"
    using that by (simp add: scan_update_end)
  show ?thesis using a b c by blast
qed

section \<open>Decimal rounding and the text of a number\<close>

lemma roundDecimal_scaled: "\<exists>n::int. roundDecimal d x = of_int n / 10 ^ d"
proof (cases "x < 0")
  case True
  then have "roundDecimal d x = of_int (- \<lfloor>(- x) * 10 ^ d + 1 / 2\<rfloor>) / 10 ^ d"
    by (simp add: roundDecimal_def)
  then show ?thesis by blast
next
  case False
  then show ?thesis by (auto simp: roundDecimal_def)
qed

lemma roundDecimal_nonneg_near:
  fixes x :: rat
  assumes "0 \<le> x"
  shows "\<bar>of_int \<lfloor>x * 10 ^ d + 1 / 2\<rfloor> / 10 ^ d - x\<bar> \<le> 1 / (2 * 10 ^ d)"
proof -
  let ?p = "(10::rat) ^ d"
  let ?n = "\<lfloor>x * ?p + 1 / 2\<rfloor>"
  have p: "0 < ?p" by simp
  have lo: "of_int ?n \<le> x * ?p + 1 / 2" by (rule of_int_floor_le)
  have hi: "x * ?p + 1 / 2 < of_int ?n + 1" by linarith
  have a: "\<bar>of_int ?n - x * ?p\<bar> \<le> 1 / 2" using lo hi by linarith
  have "\<bar>of_int ?n - x * ?p\<bar> / ?p \<le> (1 / 2) / ?p"
    by (rule divide_right_mono [OF a]) simp
  moreover have "\<bar>of_int ?n - x * ?p\<bar> / ?p = \<bar>of_int ?n / ?p - x\<bar>"
  proof -
    have "of_int ?n / ?p - x = (of_int ?n - x * ?p) / ?p"
      using p by (simp add: field_simps)
    then show ?thesis using p by (simp add: abs_divide)
  qed
  ultimately show ?thesis by simp
qed

lemma roundDecimal_near: "\<bar>roundDecimal d x - x\<bar> \<le> 1 / (2 * 10 ^ d)"
proof (cases "x < 0")
  case True
  then have "0 \<le> - x" by simp
  from roundDecimal_nonneg_near [OF this, of d]
  have "\<bar>of_int \<lfloor>(- x) * 10 ^ d + 1 / 2\<rfloor> / 10 ^ d + x\<bar> \<le> 1 / (2 * 10 ^ d)" by simp
  moreover have "roundDecimal d x - x = - (of_int \<lfloor>(- x) * 10 ^ d + 1 / 2\<rfloor> / 10 ^ d + x)"
    using True by (simp add: roundDecimal_def)
  ultimately show ?thesis by (simp only: abs_minus)
next
  case False
  then have "0 \<le> x" by simp
  from roundDecimal_nonneg_near [OF this, of d] False show ?thesis
    by (simp add: roundDecimal_def)
qed

lemma roundDecimal_zero [simp]: "roundDecimal d 0 = 0"
proof -
  have "\<lfloor>1 / 2 :: rat\<rfloor> = 0" by (simp add: floor_eq_iff)
  then show ?thesis by (simp add: roundDecimal_def)
qed

lemma digitChar_digit:
  assumes "0 \<le> k" "k < 10"
  shows "isDigit (digitChar k) \<and> (of_char (digitChar k) :: int) = 48 + k"
proof -
  from assms have "k = 0 \<or> k = 1 \<or> k = 2 \<or> k = 3 \<or> k = 4 \<or> k = 5 \<or> k = 6
    \<or> k = 7 \<or> k = 8 \<or> k = 9" by arith
  then show ?thesis
    by (elim disjE) (simp_all add: digitChar_def isDigit_def)
qed

lemma digitsValue_snoc: "digitsValue (ds @ [c]) = 10 * digitsValue ds + (of_char c - 48)"
  by (simp add: digitsValue_def)

lemma showNat_digits:
  "0 \<le> n \<Longrightarrow> showNat n \<noteq> [] \<and> (\<forall>c \<in> set (showNat n). isDigit c) \<and> digitsValue (showNat n) = n"
proof (induction n rule: showNat.induct)
  case (1 n)
  show ?case
  proof (cases "n < 10")
    case True
    with 1(2) digitChar_digit [of n] show ?thesis
      by (subst (1 2 3) showNat.simps) (simp add: digitsValue_def)
  next
    case False
    then have "0 \<le> n div 10" by simp
    with 1(1) False have ih: "showNat (n div 10) \<noteq> []"
      "\<forall>c \<in> set (showNat (n div 10)). isDigit c" "digitsValue (showNat (n div 10)) = n div 10"
      by simp_all
    have "0 \<le> n mod 10" "n mod 10 < 10" by simp_all
    from digitChar_digit [OF this] ih False show ?thesis
      by (subst (1 2 3) showNat.simps) (simp add: digitsValue_snoc)
  qed
qed

lemma digit_not_space: "isDigit c \<Longrightarrow> \<not> isWhiteSpace c"
  by (auto simp: isDigit_def isWhiteSpace_def)

lemma digit_not_sign: "isDigit c \<Longrightarrow> c \<noteq> CHR ''-'' \<and> c \<noteq> CHR ''+'' \<and> c \<noteq> CHR ''.''"
  by (auto simp: isDigit_def)

lemma digitsValue_zeros: "digitsValue (replicate z (CHR ''0'') @ ds) = digitsValue ds"
proof -
  have "foldl (\<lambda>acc c. 10 * acc + (of_char c - 48)) (0::int) (replicate z (CHR ''0'')) = 0"
    by (induction z) simp_all
  then show ?thesis by (simp add: digitsValue_def)
qed

lemma digit_not_I: "isDigit c \<Longrightarrow> c \<noteq> CHR ''I''"
  by (auto simp: isDigit_def)

lemma decimalLiteral_fraction:
  assumes a: "a \<noteq> []" "\<forall>c \<in> set a. isDigit c" and b: "\<forall>c \<in> set b. isDigit c"
  shows "decimalLiteral (a @ CHR ''.'' # b) = Some (of_int (digitsValue (a @ b)) / 10 ^ length b)"
proof -
  have nodot: "\<not> isDigit (CHR ''.'')" by (simp add: isDigit_def)
  have tw: "takeWhile isDigit (a @ CHR ''.'' # b) = a"
    using a(2) nodot by (simp add: takeWhile_append2)
  have dw: "dropWhile isDigit (a @ CHR ''.'' # b) = CHR ''.'' # b"
    using a(2) nodot by (simp add: dropWhile_append2)
  have twb: "takeWhile isDigit b = b" "dropWhile isDigit b = []"
    using b by simp_all
  have p: "(10::rat) powi (- int (length b)) = 1 / 10 ^ length b"
    by (simp add: power_int_minus divide_inverse)
  show ?thesis
    unfolding decimalLiteral_def tw dw
    using a(1) by (simp add: Let_def twb exponentPart_def p)
qed

lemma decimalLiteral_integer:
  assumes a: "a \<noteq> []" "\<forall>c \<in> set a. isDigit c"
  shows "decimalLiteral a = Some (of_int (digitsValue a))"
proof -
  have twa: "takeWhile isDigit a = a" "dropWhile isDigit a = []"
    using a(2) by simp_all
  show ?thesis
    unfolding decimalLiteral_def twa
    using a(1) by (simp add: Let_def exponentPart_def)
qed

lemma parseFloat_unsigned:
  assumes "s \<noteq> []" "isDigit (hd s)" "decimalLiteral s = Some mv"
  shows "parseFloat s = rd mv" and "parseFloat (CHR ''-'' # s) = rd (- mv)"
proof -
  from assms obtain c r where cr: "s = c # r" "isDigit c" by (cases s) auto
  have m: "\<not> isWhiteSpace (CHR ''-'')" by (simp add: isWhiteSpace_def)
  have r: "dropWhile isWhiteSpace s = s" using cr digit_not_space by simp
  have sr: "signOf s = (False, s)" using cr digit_not_sign [of c] by (simp add: signOf_def)
  have inf: "take 8 s \<noteq> ''Infinity''" using cr digit_not_I [of c] by auto
  show "parseFloat s = rd mv"
    using inf assms(3) by (simp add: parseFloat_def r sr)
  show "parseFloat (CHR ''-'' # s) = rd (- mv)"
    using m inf assms(3) by (simp add: parseFloat_def signOf_def rd_neg)
qed

lemma toFixedDigits_reads_back: "parseFloat (toFixedDigits d x) = rd (roundDecimal d x)"
proof -
  define n where "n = \<lfloor>\<bar>x\<bar> * 10 ^ d + 1 / 2\<rfloor>"
  define m0 where "m0 = showNat n"
  define m where "m = (if length m0 \<le> d then replicate (d + 1 - length m0) (CHR ''0'') @ m0 else m0)"
  define body where "body = (if d = 0 then m else take (length m - d) m @ CHR ''.'' # drop (length m - d) m)"
  have n0: "0 \<le> n"
  proof -
    have "0 \<le> \<bar>x\<bar> * 10 ^ d + 1 / 2" by simp
    then show ?thesis unfolding n_def by (simp only: zero_le_floor)
  qed
  from showNat_digits [OF n0] have m0: "m0 \<noteq> []" "\<forall>c \<in> set m0. isDigit c" "digitsValue m0 = n"
    by (simp_all add: m0_def)
  have zero: "isDigit (CHR ''0'')" by (simp add: isDigit_def)
  have m: "m \<noteq> []" "\<forall>c \<in> set m. isDigit c" "digitsValue m = n" "d < length m"
    using m0 zero by (auto simp: m_def digitsValue_zeros)
  have val: "decimalLiteral body = Some (of_int n / 10 ^ d)"
  proof (cases "d = 0")
    case True
    then show ?thesis using decimalLiteral_integer [OF m(1,2)] m(3) by (simp add: body_def)
  next
    case False
    let ?a = "take (length m - d) m" and ?b = "drop (length m - d) m"
    have a: "?a \<noteq> []" "\<forall>c \<in> set ?a. isDigit c"
      using m(2,4) by (auto dest: in_set_takeD)
    have b: "\<forall>c \<in> set ?b. isDigit c" "length ?b = d"
      using m(2,4) by (auto dest: in_set_dropD)
    from decimalLiteral_fraction [OF a b(1)] b(2) m(3) False show ?thesis
      by (simp add: body_def)
  qed
  have hd: "body \<noteq> []" "isDigit (hd body)"
  proof -
    show "body \<noteq> []" using m(1) by (simp add: body_def)
    have "hd body = hd m"
      using m(1,4) by (auto simp: body_def hd_append hd_take)
    then show "isDigit (hd body)" using m(1,2) by simp
  qed
  have str: "toFixedDigits d x = (if x < 0 then CHR ''-'' # body else body)"
    by (simp add: toFixedDigits_def Let_def n_def m0_def m_def body_def)
  have num: "roundDecimal d x = (if x < 0 then - (of_int n / 10 ^ d) else of_int n / 10 ^ d)"
    by (simp add: roundDecimal_def n_def)
  show ?thesis
    using parseFloat_unsigned [OF hd val] by (simp add: str num)
qed

lemma toFixed_reads_back:
  "\<bar>x\<bar> < 10 ^ 21 \<Longrightarrow> parseFloat (toFixed d (Fin x)) = rd (roundDecimal d x)"
  by (simp add: toFixedDigits_reads_back)

lemma toFixed_rounds:
  assumes "\<bar>x\<bar> < 10 ^ 21"
  shows "\<exists>n::int. parseFloat (toFixed d (Fin x)) = rd (of_int n / 10 ^ d) \<and>
                   \<bar>of_int n / 10 ^ d - x\<bar> \<le> 1 / (2 * 10 ^ d)"
proof -
  obtain n :: int where n: "roundDecimal d x = of_int n / 10 ^ d"
    using roundDecimal_scaled by blast
  have "\<bar>roundDecimal d x - x\<bar> \<le> 1 / (2 * 10 ^ d)" by (rule roundDecimal_near)
  then show ?thesis
    using toFixed_reads_back [OF assms, of d] n by (intro exI [of _ n]) simp
qed

lemma toFixedDigits_zero [simp]: "parseFloat (toFixedDigits d 0) = Fin 0"
  by (simp add: toFixedDigits_reads_back)

lemma toFixed_special [simp]:
  "parseFloat (toFixed d NaN) = NaN" "parseFloat (toFixed d PInf) = PInf"
  "parseFloat (toFixed d NInf) = NInf"
  by code_simp+

theorem nearest_record_first_minimum_witness:
  "usable_rows (response_of tie_export) = Inr [(Fin 2024, Fin 10), (Fin 2026, Fin 12)] \<and>
   (\<exists>r \<in> set [(Fin 2024, Fin 10), (Fin 2026, Fin 12)]. reachable (Fin 2025) r) \<and>
   distance (Fin 2025) (Fin 2024, Fin 10) = distance (Fin 2025) (Fin 2026, Fin 12) \<and>
   first_nearest [(Fin 2024, Fin 10), (Fin 2026, Fin 12)] (Fin 2025) 0 \<and>
   calculateCarbonSequestration (response_of tie_export) (Fin 2025) (Fin 2025) =
     Inr \<lparr>totalCarbon = Fin 0, startCarbon = Fin 10, endCarbon = Fin 10, dataPoints = 2\<rparr>"
proof -
  have a: "usable_rows (response_of tie_export) = Inr [(Fin 2024, Fin 10), (Fin 2026, Fin 12)]"
    by code_simp
  have b: "\<exists>r \<in> set [(Fin 2024, Fin 10), (Fin 2026, Fin 12)]. reachable (Fin 2025) r"
    by code_simp
  have c: "distance (Fin 2025) (Fin 2024, Fin 10) = distance (Fin 2025) (Fin 2026, Fin 12)"
    by code_simp
  have d: "first_nearest [(Fin 2024, Fin 10), (Fin 2026, Fin 12)] (Fin 2025) 0"
    by code_simp
  have v: "calculateCarbonSequestration (response_of tie_export) (Fin 2025) (Fin 2025) =
     Inr \<lparr>totalCarbon = Fin 0, startCarbon = Fin 10, endCarbon = Fin 10, dataPoints = 2\<rparr>"
    by code_simp
  show ?thesis
    using nearest_record_first_minimum [OF a b b] a b c d v by simp
qed

text \<open>
  The distances are those of the doubles: 2047.99 is read as a double a little nearer to
  2048 than the double read from 2048.01, and the later row is resolved.
\<close>

lemma nearest_record_by_computed_distance:
  "jless (distance (Fin 2048) (rd (204799 / 100), Fin 2))
         (distance (Fin 2048) (rd (204801 / 100), Fin 1)) \<and>
   calculateCarbonSequestration (response_of close_years_export) (Fin 2048) (Fin 2048)
     = Inr \<lparr>totalCarbon = Fin 0, startCarbon = Fin 2, endCarbon = Fin 2, dataPoints = 2\<rparr>"
proof -
  have "jless (distance (Fin 2048) (rd (204799 / 100), Fin 2))
              (distance (Fin 2048) (rd (204801 / 100), Fin 1))" by code_simp
  moreover have "calculateCarbonSequestration (response_of close_years_export) (Fin 2048) (Fin 2048)
     = Inr \<lparr>totalCarbon = Fin 0, startCarbon = Fin 2, endCarbon = Fin 2, dataPoints = 2\<rparr>"
    by code_simp
  ultimately show ?thesis by simp
qed

section \<open>Short rows\<close>

lemma points_loop_append:
  "points_loop yi si ti di acc (xs @ ys) = points_loop yi si ti di (points_loop yi si ti di acc xs) ys"
  by (induction xs arbitrary: acc) (simp_all split: option.split)

lemma at_index_beyond: "length xs \<le> i \<Longrightarrow> at_index xs i = None"
  by (simp add: at_index_def)

lemma seq_row_missing:
  "length (cells line) \<le> di \<or> length (cells line) \<le> ci \<Longrightarrow> seq_row di ci line = None"
  by (auto simp: seq_row_def Let_def at_index_beyond parseFloatCell_def)

lemma chart_row_missing:
  "length (cells line) \<le> yi \<or> length (cells line) \<le> si \<or>
   length (cells line) \<le> ti \<or> length (cells line) \<le> di \<Longrightarrow> chart_row yi si ti di line = None"
  by (auto simp: chart_row_def Let_def at_index_beyond parseFloatCell_def parseIntCell_def)

text \<open>
  C2, as stated, fails: the third line of this export has five fields under a header of
  six columns, and both computations use it. The end value 10.5 of the sequestration
  and the one step change of the chart come from that line.
\<close>

theorem short_row_is_used:
  "csvLines short_row_export ! 2 = ''2024,2,2024.083,10.5,2.1'' \<and>
   length (cells (csvLines short_row_export ! 2)) < length (cells (csvLines short_row_export ! 0)) \<and>
   calculateCarbonSequestration (response_of short_row_export) (Fin 2024) (rd (2024083 / 1000)) =
     Inr \<lparr>totalCarbon = Fin (1 / 2), startCarbon = Fin 10, endCarbon = Fin (21 / 2),
          dataPoints = 2\<rparr> \<and>
   extractStepCarbonChanges (JsString short_row_export)
     \<lparr>startYear = Fin 2024, startStepInYear = Fin 1, endYear = Fin 2024, endStepInYear = Fin 2\<rparr> =
     Inr [\<lparr>label = ''2024-S2'', delta = rd (6 / 10)\<rparr>]"
proof -
  have "csvLines short_row_export ! 2 = ''2024,2,2024.083,10.5,2.1''" by code_simp
  moreover have "length (cells (csvLines short_row_export ! 2))
                   < length (cells (csvLines short_row_export ! 0))" by code_simp
  moreover have "calculateCarbonSequestration (response_of short_row_export) (Fin 2024)
       (rd (2024083 / 1000)) =
     Inr \<lparr>totalCarbon = Fin (1 / 2), startCarbon = Fin 10, endCarbon = Fin (21 / 2),
          dataPoints = 2\<rparr>"
    by code_simp
  moreover have "extractStepCarbonChanges (JsString short_row_export)
     \<lparr>startYear = Fin 2024, startStepInYear = Fin 1, endYear = Fin 2024, endStepInYear = Fin 2\<rparr> =
     Inr [\<lparr>label = ''2024-S2'', delta = rd (6 / 10)\<rparr>]" by code_simp
  ultimately show ?thesis by blast
qed

text \<open>
  C2, amended. A data row is skipped when it is too short to hold a required column:
  when its field count does not exceed the index of the decimal-year or the tree-carbon
  column for the sequestration, or of the year, step, tree-carbon or debris-carbon
  column for the step changes. Such a row gives no record, and the loop over the rows
  ends in the same state with the row as without it.
\<close>

theorem rows_missing_a_required_field_are_skipped:
  "(length (cells line) \<le> di \<or> length (cells line) \<le> ci \<longrightarrow>
      seq_row di ci line = None \<and>
      scan_loop di ci s e st (before @ line # after) = scan_loop di ci s e st (before @ after)) \<and>
   (length (cells line) \<le> yi \<or> length (cells line) \<le> si \<or>
    length (cells line) \<le> ti \<or> length (cells line) \<le> dbi \<longrightarrow>
      chart_row yi si ti dbi line = None \<and>
      points_loop yi si ti dbi acc (before @ line # after)
        = points_loop yi si ti dbi acc (before @ after))"
proof -
  have a: "seq_row di ci line = None \<and>
      scan_loop di ci s e st (before @ line # after) = scan_loop di ci s e st (before @ after)"
    if "length (cells line) \<le> di \<or> length (cells line) \<le> ci"
    using seq_row_missing [OF that] by (simp add: scan_loop_append)
  have b: "chart_row yi si ti dbi line = None \<and>
      points_loop yi si ti dbi acc (before @ line # after)
        = points_loop yi si ti dbi acc (before @ after)"
    if "length (cells line) \<le> yi \<or> length (cells line) \<le> si \<or>
        length (cells line) \<le> ti \<or> length (cells line) \<le> dbi"
    using chart_row_missing [OF that] by (simp add: points_loop_append)
  show ?thesis using a b by blast
qed

theorem rows_missing_a_required_field_are_skipped_witness:
  "length (cells ''2024,2,2024.083'') \<le> 3 \<and>
   seq_row 2 3 ''2024,2,2024.083'' = None \<and>
   chart_row 0 1 3 4 ''2024,2,2024.083'' = None"
proof -
  have a: "length (cells ''2024,2,2024.083'') \<le> 3" by code_simp
  show ?thesis
    using a rows_missing_a_required_field_are_skipped
              [of "''2024,2,2024.083''" 2 3 _ _ _ _ _ 0 1 3 4]
    by simp
qed

section \<open>Direction of the analysis range\<close>

text \<open>
  C6. Swapping the start and the end of the analysis range leaves the result of
  \<open>extractStepCarbonChanges\<close> unchanged, for every payload: the window runs from the
  smaller to the larger of the two step points.
\<close>

theorem range_direction_agnostic:
  "extractStepCarbonChanges d
     \<lparr>startYear = ey, startStepInYear = es, endYear = sy, endStepInYear = ss\<rparr>
   = extractStepCarbonChanges d
     \<lparr>startYear = sy, startStepInYear = ss, endYear = ey, endStepInYear = es\<rparr>"
  by (simp add: extractStepCarbonChanges_def Let_def
        jmin_commute [of "toStepPoint ey es"] jmax_commute [of "toStepPoint ey es"]
      split: sum.split)

section \<open>Average per year\<close>

text \<open>
  C8, as stated, fails: between January 2024 and January 2027 the total is 1 and the
  years are 3, and the average returned is the double 0.3333333333, which is not the
  quotient of 1 by 3 that the division gives.
\<close>

theorem average_is_rounded_quotient_counterexample:
  "calculateCarbonSequestration (response_of three_year_export) (Fin 2024) (Fin 2027) =
     Inr \<lparr>totalCarbon = Fin 1, startCarbon = Fin 10, endCarbon = Fin 11, dataPoints = 2\<rparr> \<and>
   calculateAverageAnnualSequestration (response_of three_year_export)
       (Fin 2024) (Fin 1) (Fin 2027) (Fin 1) =
     Inr \<lparr>avg_totalCarbon = Fin 1, averagePerYear = rd (3333333333 / 10000000000),
          years = Fin 3\<rparr> \<and>
   jdiv (Fin 1) (jsub (Fin 2027) (Fin 2024)) = rd (1 / 3) \<and>
   rd (3333333333 / 10000000000) \<noteq> rd (1 / 3)"
proof -
  have "calculateCarbonSequestration (response_of three_year_export) (Fin 2024) (Fin 2027) =
     Inr \<lparr>totalCarbon = Fin 1, startCarbon = Fin 10, endCarbon = Fin 11, dataPoints = 2\<rparr>"
    by code_simp
  moreover have "calculateAverageAnnualSequestration (response_of three_year_export)
       (Fin 2024) (Fin 1) (Fin 2027) (Fin 1) =
     Inr \<lparr>avg_totalCarbon = Fin 1, averagePerYear = rd (3333333333 / 10000000000),
          years = Fin 3\<rparr>"
    by code_simp
  moreover have "jdiv (Fin 1) (jsub (Fin 2027) (Fin 2024)) = rd (1 / 3)" by code_simp
  moreover have "rd (3333333333 / 10000000000) \<noteq> rd (1 / 3)" by code_simp
  ultimately show ?thesis by blast
qed

text \<open>
  C8, amended. When both months are valid and the sequestration call succeeds, the
  average call succeeds too. With \<open>years\<close> the end date minus the start date in double
  precision, the average it returns is 0 when \<open>years > 0\<close> does not hold, and otherwise
  the double quotient of the total by \<open>years\<close> rounded to ten decimals: when the quotient
  is finite and below \<open>10^21\<close> in magnitude, the double nearest to a whole number of
  \<open>10^-10\<close> that lies within half of \<open>10^-10\<close> of the quotient. The years it returns are
  \<open>years\<close> rounded to two decimals.
\<close>

theorem average_annual_guarded:
  assumes sd: "dateToDecimalYear sy sm = Inr sd" and ed: "dateToDecimalYear ey em = Inr ed"
    and res: "calculateCarbonSequestration resp sd ed = Inr res"
  shows "\<exists>r. calculateAverageAnnualSequestration resp sy sm ey em = Inr r \<and>
           avg_totalCarbon r = totalCarbon res \<and>
           years r = parseFloat (toFixed 2 (jsub ed sd)) \<and>
           (\<not> jless (Fin 0) (jsub ed sd) \<longrightarrow> averagePerYear r = Fin 0) \<and>
           (jless (Fin 0) (jsub ed sd) \<longrightarrow>
              averagePerYear r = parseFloat (toFixed 10 (jdiv (totalCarbon res) (jsub ed sd))) \<and>
              (\<forall>q. jdiv (totalCarbon res) (jsub ed sd) = Fin q \<and> \<bar>q\<bar> < 10 ^ 21 \<longrightarrow>
                 (\<exists>n::int. averagePerYear r = rd (of_int n / 10 ^ 10) \<and>
                            \<bar>of_int n / 10 ^ 10 - q\<bar> \<le> 1 / (2 * 10 ^ 10))))"
proof (cases "jless (Fin 0) (jsub ed sd)")
  case True
  let ?r = "\<lparr>avg_totalCarbon = totalCarbon res,
             averagePerYear = parseFloat (toFixed 10 (jdiv (totalCarbon res) (jsub ed sd))),
             years = parseFloat (toFixed 2 (jsub ed sd))\<rparr>"
  have c: "calculateAverageAnnualSequestration resp sy sm ey em = Inr ?r"
    using sd ed res True by (simp add: calculateAverageAnnualSequestration_def Let_def)
  have "\<exists>n::int. averagePerYear ?r = rd (of_int n / 10 ^ 10) \<and>
                  \<bar>of_int n / 10 ^ 10 - q\<bar> \<le> 1 / (2 * 10 ^ 10)"
    if "jdiv (totalCarbon res) (jsub ed sd) = Fin q \<and> \<bar>q\<bar> < 10 ^ 21" for q
    using that toFixed_rounds [of q 10] by simp
  then show ?thesis using c True by (intro exI [of _ ?r]) simp
next
  case False
  let ?r = "\<lparr>avg_totalCarbon = totalCarbon res, averagePerYear = Fin 0,
             years = parseFloat (toFixed 2 (jsub ed sd))\<rparr>"
  have c: "calculateAverageAnnualSequestration resp sy sm ey em = Inr ?r"
    using sd ed res False by (simp add: calculateAverageAnnualSequestration_def Let_def)
  then show ?thesis using False by (intro exI [of _ ?r]) simp
qed

theorem average_annual_guarded_witness:
  "dateToDecimalYear (Fin 2024) (Fin 1) = Inr (Fin 2024) \<and>
   dateToDecimalYear (Fin 2024) (Fin 2) = Inr (rd (2024083 / 1000)) \<and>
   calculateCarbonSequestration (response_of one_month_export) (Fin 2024) (Fin 2024) =
     Inr \<lparr>totalCarbon = Fin 0, startCarbon = Fin 10, endCarbon = Fin 10, dataPoints = 2\<rparr> \<and>
   jsub (Fin 2024) (Fin 2024) = Fin 0 \<and> \<not> jless (Fin 0) (Fin 0) \<and>
   calculateAverageAnnualSequestration (response_of one_month_export)
       (Fin 2024) (Fin 1) (Fin 2024) (Fin 1) =
     Inr \<lparr>avg_totalCarbon = Fin 0, averagePerYear = Fin 0, years = Fin 0\<rparr> \<and>
   calculateCarbonSequestration (response_of one_month_export) (Fin 2024) (rd (2024083 / 1000)) =
     Inr \<lparr>totalCarbon = Fin 50, startCarbon = Fin 10, endCarbon = Fin 60, dataPoints = 2\<rparr> \<and>
   jless (Fin 0) (jsub (rd (2024083 / 1000)) (Fin 2024)) \<and>
   calculateAverageAnnualSequestration (response_of one_month_export)
       (Fin 2024) (Fin 1) (Fin 2024) (Fin 2) =
     Inr \<lparr>avg_totalCarbon = Fin 50, averagePerYear = rd (6024096385536 / 10000000000),
          years = rd (8 / 100)\<rparr> \<and>
   calculateCarbonSequestration (response_of one_month_export) (rd (2024083 / 1000)) (Fin 2024) =
     Inr \<lparr>totalCarbon = Fin (- 50), startCarbon = Fin 60, endCarbon = Fin 10, dataPoints = 2\<rparr> \<and>
   \<not> jless (Fin 0) (jsub (Fin 2024) (rd (2024083 / 1000))) \<and>
   calculateAverageAnnualSequestration (response_of one_month_export)
       (Fin 2024) (Fin 2) (Fin 2024) (Fin 1) =
     Inr \<lparr>avg_totalCarbon = Fin (- 50), averagePerYear = Fin 0, years = rd (- 8 / 100)\<rparr>"
proof -
  have a: "dateToDecimalYear (Fin 2024) (Fin 1) = Inr (Fin 2024)" by code_simp
  have b: "dateToDecimalYear (Fin 2024) (Fin 2) = Inr (rd (2024083 / 1000))" by code_simp
  have c0: "calculateCarbonSequestration (response_of one_month_export) (Fin 2024) (Fin 2024) =
     Inr \<lparr>totalCarbon = Fin 0, startCarbon = Fin 10, endCarbon = Fin 10, dataPoints = 2\<rparr>"
    by code_simp
  have c1: "calculateCarbonSequestration (response_of one_month_export) (Fin 2024)
       (rd (2024083 / 1000)) =
     Inr \<lparr>totalCarbon = Fin 50, startCarbon = Fin 10, endCarbon = Fin 60, dataPoints = 2\<rparr>"
    by code_simp
  have c2: "calculateCarbonSequestration (response_of one_month_export) (rd (2024083 / 1000))
       (Fin 2024) =
     Inr \<lparr>totalCarbon = Fin (- 50), startCarbon = Fin 60, endCarbon = Fin 10, dataPoints = 2\<rparr>"
    by code_simp
  have y0: "jsub (Fin 2024) (Fin 2024) = Fin 0" "\<not> jless (Fin 0) (Fin 0)" by code_simp+
  have y1: "jless (Fin 0) (jsub (rd (2024083 / 1000)) (Fin 2024))" by code_simp
  have y2: "\<not> jless (Fin 0) (jsub (Fin 2024) (rd (2024083 / 1000)))" by code_simp
  have v0: "calculateAverageAnnualSequestration (response_of one_month_export)
       (Fin 2024) (Fin 1) (Fin 2024) (Fin 1) =
     Inr \<lparr>avg_totalCarbon = Fin 0, averagePerYear = Fin 0, years = Fin 0\<rparr>" by code_simp
  have v1: "calculateAverageAnnualSequestration (response_of one_month_export)
       (Fin 2024) (Fin 1) (Fin 2024) (Fin 2) =
     Inr \<lparr>avg_totalCarbon = Fin 50, averagePerYear = rd (6024096385536 / 10000000000),
          years = rd (8 / 100)\<rparr>" by code_simp
  have v2: "calculateAverageAnnualSequestration (response_of one_month_export)
       (Fin 2024) (Fin 2) (Fin 2024) (Fin 1) =
     Inr \<lparr>avg_totalCarbon = Fin (- 50), averagePerYear = Fin 0, years = rd (- 8 / 100)\<rparr>"
    by code_simp
  show ?thesis
    using average_annual_guarded [OF a a c0] average_annual_guarded [OF a b c1]
      average_annual_guarded [OF b a c2] a b c0 c1 c2 y0 y1 y2 v0 v1 v2
    by simp
qed

section \<open>Cumulative series\<close>

lemma cumulative_loop_length: "length (cumulative_loop r cs) = length cs"
  by (induction cs arbitrary: r) (simp_all add: Let_def)

lemma cumulative_loop_nth:
  "i < length cs \<Longrightarrow>
   cumulative_loop r cs ! i =
     \<lparr>point_label = label (cs ! i),
      total = parseFloat (toFixed 10 (foldl jadd r (map delta (take (Suc i) cs))))\<rparr>"
proof (induction cs arbitrary: r i)
  case Nil
  then show ?case by simp
next
  case (Cons c cs)
  show ?case
  proof (cases i)
    case 0
    then show ?thesis by (simp add: Let_def)
  next
    case (Suc k)
    with Cons.prems have "k < length cs" by simp
    from Cons.IH [OF this, of "jadd r (delta c)"] Suc show ?thesis
      by (simp add: Let_def)
  qed
qed

text \<open>
  C10, as stated, fails: for the deltas \<open>10^16\<close>, 1 and \<open>-10^16\<close> the exact sum of the
  three is 1, whose rounding to ten decimals is 1, and the total emitted at index 2 is
  0. The accumulator is a double, and \<open>10^16 + 1\<close> is \<open>10^16\<close> there.
\<close>

theorem cumulative_exact_sum_counterexample:
  "total (buildCumulativeSequestrationSeries
            [\<lparr>label = ''2024-S2'', delta = Fin 10000000000000000\<rparr>,
             \<lparr>label = ''2024-S3'', delta = Fin 1\<rparr>,
             \<lparr>label = ''2024-S4'', delta = Fin (- 10000000000000000)\<rparr>] ! 2) = Fin 0 \<and>
   (10000000000000000 + 1 + (- 10000000000000000) :: rat) = 1 \<and>
   rd (roundDecimal 10 1) = Fin 1"
proof -
  have "total (buildCumulativeSequestrationSeries
            [\<lparr>label = ''2024-S2'', delta = Fin 10000000000000000\<rparr>,
             \<lparr>label = ''2024-S3'', delta = Fin 1\<rparr>,
             \<lparr>label = ''2024-S4'', delta = Fin (- 10000000000000000)\<rparr>] ! 2) = Fin 0"
    by code_simp
  moreover have "rd (roundDecimal 10 1) = Fin 1" by code_simp
  ultimately show ?thesis by simp
qed

text \<open>
  C10, amended. The cumulative series has the length and the labels of the changes, and
  the total at index \<open>i\<close> is the rounding to ten decimals of the running sum of the
  deltas \<open>0 .. i\<close>, accumulated from 0 in double precision, from left to right. The
  rounded total is never fed back into the sum. When the running sum is finite and below
  \<open>10^21\<close> in magnitude, the total is the double nearest to a whole number of \<open>10^-10\<close>
  that lies within half of \<open>10^-10\<close> of the running sum.
\<close>

theorem cumulative_series_running_sums:
  "length (buildCumulativeSequestrationSeries cs) = length cs \<and>
   (\<forall>i < length cs.
      point_label (buildCumulativeSequestrationSeries cs ! i) = label (cs ! i) \<and>
      total (buildCumulativeSequestrationSeries cs ! i) =
        parseFloat (toFixed 10 (foldl jadd (Fin 0) (map delta (take (Suc i) cs)))) \<and>
      (\<forall>q. foldl jadd (Fin 0) (map delta (take (Suc i) cs)) = Fin q \<and> \<bar>q\<bar> < 10 ^ 21 \<longrightarrow>
         (\<exists>n::int. total (buildCumulativeSequestrationSeries cs ! i) = rd (of_int n / 10 ^ 10) \<and>
                    \<bar>of_int n / 10 ^ 10 - q\<bar> \<le> 1 / (2 * 10 ^ 10))))"
proof -
  have a: "length (buildCumulativeSequestrationSeries cs) = length cs"
    by (simp add: buildCumulativeSequestrationSeries_def cumulative_loop_length)
  have b: "buildCumulativeSequestrationSeries cs ! i =
     \<lparr>point_label = label (cs ! i),
      total = parseFloat (toFixed 10 (foldl jadd (Fin 0) (map delta (take (Suc i) cs))))\<rparr>"
    if "i < length cs" for i
    using that cumulative_loop_nth [OF that, of "Fin 0"]
    by (auto simp: buildCumulativeSequestrationSeries_def)
  have c: "\<exists>n::int. total (buildCumulativeSequestrationSeries cs ! i) = rd (of_int n / 10 ^ 10) \<and>
                    \<bar>of_int n / 10 ^ 10 - q\<bar> \<le> 1 / (2 * 10 ^ 10)"
    if "i < length cs" "foldl jadd (Fin 0) (map delta (take (Suc i) cs)) = Fin q \<and> \<bar>q\<bar> < 10 ^ 21"
    for i q
    using toFixed_rounds [of q 10] that by (simp only: b [OF that(1)]) simp
  show ?thesis using a b c by simp
qed

theorem cumulative_series_running_sums_witness:
  "(1::nat) < length [\<lparr>label = ''a'', delta = rd (6 / 10)\<rparr>, \<lparr>label = ''b'', delta = rd (- 1 / 10)\<rparr>] \<and>
   foldl jadd (Fin 0) (map delta (take (Suc 1)
       [\<lparr>label = ''a'', delta = rd (6 / 10)\<rparr>, \<lparr>label = ''b'', delta = rd (- 1 / 10)\<rparr>]))
     = Fin (1 / 2) \<and>
   total (buildCumulativeSequestrationSeries
            [\<lparr>label = ''a'', delta = rd (6 / 10)\<rparr>, \<lparr>label = ''b'', delta = rd (- 1 / 10)\<rparr>] ! 1)
     = Fin (1 / 2)"
proof -
  have s: "foldl jadd (Fin 0) (map delta (take (Suc 1)
       [\<lparr>label = ''a'', delta = rd (6 / 10)\<rparr>, \<lparr>label = ''b'', delta = rd (- 1 / 10)\<rparr>]))
     = Fin (1 / 2)" by code_simp
  have v: "total (buildCumulativeSequestrationSeries
            [\<lparr>label = ''a'', delta = rd (6 / 10)\<rparr>, \<lparr>label = ''b'', delta = rd (- 1 / 10)\<rparr>] ! 1)
     = Fin (1 / 2)" by code_simp
  show ?thesis
    using s v cumulative_series_running_sums
          [of "[\<lparr>label = ''a'', delta = rd (6 / 10)\<rparr>, \<lparr>label = ''b'', delta = rd (- 1 / 10)\<rparr>]"]
    by simp
qed

section \<open>Decimal years\<close>

text \<open>
  C7, as stated, fails: for the year \<open>2^53 = 9007199254740992\<close> and the month 2, the sum
  of the year and one twelfth is the year itself in double precision, and the call
  returns the year, more than half a thousandth away from \<open>year + 1 / 12\<close>.
\<close>

theorem decimal_year_of_large_year:
  "dateToDecimalYear (Fin 9007199254740992) (Fin 2) = Inr (Fin 9007199254740992) \<and>
   1 / 2000 < \<bar>(9007199254740992 :: rat) - (9007199254740992 + (2 - 1) / 12)\<bar>"
proof -
  have "dateToDecimalYear (Fin 9007199254740992) (Fin 2) = Inr (Fin 9007199254740992)"
    by code_simp
  then show ?thesis by simp
qed

section \<open>The error of rounding to a double\<close>

lemma exponentOf_power:
  assumes "0 < a"
  shows "2 powi exponentOf a \<le> max (a / 2 ^ 52) (2 powi (- 1074))"
proof (cases "ilog 2 a - 52 \<le> - 1074")
  case True
  then have "exponentOf a = - 1074" by (simp add: exponentOf_def)
  then show ?thesis by simp
next
  case False
  then have e: "exponentOf a = ilog 2 a - 52" by (simp add: exponentOf_def)
  have "(2::rat) powi (ilog 2 a - 52) = 2 powi ilog 2 a / 2 powi 52"
    by (rule power_int_diff) simp
  also have "\<dots> \<le> a / 2 powi 52"
    using ilog_lower [of 2 a] assms by (simp add: divide_right_mono)
  finally have "(2::rat) powi exponentOf a \<le> a / 2 ^ 52" by (simp add: e)
  then show ?thesis by simp
qed

lemma exponentOf_small:
  assumes "0 < a" "a \<le> 2 ^ 1000"
  shows "exponentOf a \<le> 948"
proof -
  have "(2::rat) powi ilog 2 a \<le> 2 powi 1000"
    using ilog_lower [of 2 a] assms by simp
  then have "ilog 2 a \<le> 1000"
    by (rule power_int_le_imp_le_exp [rotated]) simp_all
  then show ?thesis by (simp add: exponentOf_def)
qed

lemma roundPositive_error:
  assumes a: "0 < a" "a \<le> 2 ^ 1000"
  shows "\<exists>r. roundPositive a = Fin r \<and> \<bar>r - a\<bar> \<le> max (a / 2 ^ 53) (2 powi (- 1075))"
proof -
  let ?e = "exponentOf a" and ?m = "mantissaOf a"
  have pe: "(0::rat) < 2 powi ?e" by simp
  have small: "?e \<le> 948" using a by (rule exponentOf_small)
  then have "\<not> (971 < ?e \<or> (?e = 971 \<and> 2 ^ 53 \<le> ?m))" by simp
  then have r: "roundPositive a = Fin (of_int ?m * 2 powi ?e)"
    by (simp only: roundPositive_def if_False)
  have "\<bar>of_int ?m - a / 2 powi ?e\<bar> \<le> 1 / 2"
    unfolding mantissaOf_def by (rule roundEven_near)
  then have "\<bar>of_int ?m - a / 2 powi ?e\<bar> * 2 powi ?e \<le> (1 / 2) * 2 powi ?e"
    using pe by (intro mult_right_mono) simp_all
  moreover have "\<bar>of_int ?m - a / 2 powi ?e\<bar> * 2 powi ?e = \<bar>of_int ?m * 2 powi ?e - a\<bar>"
  proof -
    have "\<bar>of_int ?m - a / 2 powi ?e\<bar> * 2 powi ?e = \<bar>(of_int ?m - a / 2 powi ?e) * 2 powi ?e\<bar>"
      using pe by (simp add: abs_mult)
    also have "(of_int ?m - a / 2 powi ?e) * 2 powi ?e = of_int ?m * 2 powi ?e - a"
      using pe by (simp add: field_simps)
    finally show ?thesis .
  qed
  ultimately have "\<bar>of_int ?m * 2 powi ?e - a\<bar> \<le> 2 powi ?e / 2" by simp
  also have "\<dots> \<le> max (a / 2 ^ 52) (2 powi (- 1074)) / 2"
    using exponentOf_power [OF a(1)] by (simp add: divide_right_mono)
  also have "\<dots> = max (a / 2 ^ 53) (2 powi (- 1075))"
  proof -
    have "(2::rat) powi (- 1074) / 2 = 2 powi (- 1075)"
      by (simp add: power_int_minus field_simps)
    then show ?thesis by (simp add: max_def field_simps)
  qed
  finally show ?thesis using r by blast
qed

lemma rd_error:
  assumes "\<bar>x\<bar> \<le> 2 ^ 1000"
  shows "\<exists>r. rd x = Fin r \<and> \<bar>r - x\<bar> \<le> max (\<bar>x\<bar> / 2 ^ 53) (2 powi (- 1075))"
proof -
  consider "x = 0" | "x < 0" | "0 < x" by linarith
  then show ?thesis
  proof cases
    case 1
    then show ?thesis by simp
  next
    case 2
    then have "0 < - x" "- x \<le> 2 ^ 1000" using assms by simp_all
    from roundPositive_error [OF this] obtain r where
      r: "roundPositive (- x) = Fin r" "\<bar>r - (- x)\<bar> \<le> max (- x / 2 ^ 53) (2 powi (- 1075))"
      by blast
    have "rd x = Fin (- r)" using 2 r(1) by (simp add: rd_def)
    moreover have "\<bar>- r - x\<bar> = \<bar>r - (- x)\<bar>" by (simp add: abs_minus_commute)
    moreover have "\<bar>x\<bar> = - x" using 2 by simp
    ultimately show ?thesis using r(2) by simp
  next
    case 3
    then have "0 < x" "x \<le> 2 ^ 1000" using assms by simp_all
    from roundPositive_error [OF this] 3 show ?thesis by (simp add: rd_def)
  qed
qed

section \<open>Integers are doubles\<close>

lemma roundEven_of_int [simp]: "roundEven (of_int n) = n"
  by (simp add: roundEven_def)

lemma roundPositive_int:
  fixes k :: int
  assumes k: "0 < k" "k < 2 ^ 53"
  shows "roundPositive (of_int k) = Fin (of_int k)"
proof -
  let ?a = "of_int k :: rat"
  let ?e = "exponentOf ?a"
  have a0: "0 < ?a" using k by simp
  have "(2::rat) powi ilog 2 ?a \<le> ?a" using ilog_lower [of 2 ?a] a0 by simp
  also have "?a < 2 ^ 53" using k(2) by (metis of_int_less_iff of_int_numeral of_int_power)
  finally have lt: "(2::rat) powi ilog 2 ?a < 2 powi 53" by simp
  have "ilog 2 ?a < 53"
  proof (rule ccontr)
    assume "\<not> ilog 2 ?a < 53"
    then have "53 \<le> ilog 2 ?a" by simp
    then have "(2::rat) powi 53 \<le> 2 powi ilog 2 ?a" by (intro power_int_increasing) simp_all
    with lt show False by simp
  qed
  then have e0: "?e \<le> 0" by (simp add: exponentOf_def)
  have ep: "(2::rat) powi ?e = inverse (2 ^ nat (- ?e))"
  proof -
    have "?e = - int (nat (- ?e))" using e0 by simp
    then have "(2::rat) powi ?e = 2 powi (- int (nat (- ?e)))" by simp
    also have "\<dots> = inverse (2 ^ nat (- ?e))" by (simp only: power_int_minus power_int_of_nat)
    finally show ?thesis .
  qed
  have "?a / 2 powi ?e = of_int (k * 2 ^ nat (- ?e))"
    by (simp only: ep) (simp add: divide_inverse)
  then have m: "mantissaOf ?a = k * 2 ^ nat (- ?e)"
    by (simp only: mantissaOf_def roundEven_of_int)
  have "\<not> (971 < ?e \<or> (?e = 971 \<and> 2 ^ 53 \<le> mantissaOf ?a))" using e0 by simp
  then have "roundPositive ?a = Fin (of_int (mantissaOf ?a) * 2 powi ?e)"
    by (simp only: roundPositive_def if_False)
  also have "of_int (mantissaOf ?a) * 2 powi ?e = ?a"
    by (simp only: m ep) simp
  finally show ?thesis .
qed

lemma rd_int:
  fixes k :: int
  assumes "\<bar>k\<bar> < 2 ^ 53"
  shows "rd (of_int k) = Fin (of_int k)"
proof -
  consider "k = 0" | "0 < k" | "k < 0" by linarith
  then show ?thesis
  proof cases
    case 1
    then show ?thesis by simp
  next
    case 2
    with assms have "roundPositive (of_int k) = Fin (of_int k)"
      by (intro roundPositive_int) simp_all
    with 2 show ?thesis by (simp add: rd_def)
  next
    case 3
    with assms have "roundPositive (of_int (- k)) = Fin (of_int (- k))"
      by (intro roundPositive_int) simp_all
    with 3 show ?thesis by (simp add: rd_def)
  qed
qed

lemma toStepPoint_exact:
  fixes y s :: int
  assumes "\<bar>y\<bar> \<le> 2 ^ 48" "\<bar>s\<bar> \<le> 2 ^ 48"
  shows "toStepPoint (Fin (of_int y)) (Fin (of_int s)) = Fin (of_int (y * 12 + (s - 1)))"
proof -
  have a: "rd (of_int (y * 12)) = Fin (of_int (y * 12))"
    using assms by (intro rd_int) simp
  have b: "rd (of_int (s - 1)) = Fin (of_int (s - 1))"
    using assms by (intro rd_int) simp
  have c: "rd (of_int (y * 12 + (s - 1))) = Fin (of_int (y * 12 + (s - 1)))"
    using assms by (intro rd_int) simp
  have "toStepPoint (Fin (of_int y)) (Fin (of_int s))
          = jadd (rd (of_int (y * 12))) (rd (of_int (s - 1)))"
    by (simp add: toStepPoint_def jsub_def)
  also have "\<dots> = rd (of_int (y * 12 + (s - 1)))"
    by (simp only: a b jadd.simps of_int_add)
  finally show ?thesis by (simp only: c)
qed

section \<open>The precision of a double\<close>

lemma ilog_upper:
  assumes b: "2 \<le> b" and a: "0 < a"
  shows "a < of_int b powi (ilog b a + 1)"
proof -
  obtain p q where pq: "quotient_of a = (p, q)" by (cases "quotient_of a")
  have q0: "0 < q" using pq by (rule quotient_of_denom_pos)
  have av: "a = of_int p / of_int q" using pq by (rule quotient_of_div)
  have p0: "0 < p" using a q0 unfolding av by (simp add: zero_less_divide_iff)
  let ?k = "countDigits b p - countDigits b q"
  show ?thesis
  proof (cases "of_int b powi ?k \<le> a")
    case False
    then have il: "ilog b a = ?k - 1" by (simp add: ilog_def pq)
    from False have "a < of_int b powi ?k" by simp
    then show ?thesis by (simp only: il) simp
  next
    case True
    then have il: "ilog b a = ?k" by (simp add: ilog_def pq)
    let ?P = "nat (countDigits b p)" and ?Q = "nat (countDigits b q - 1)"
    have bp: "p < b ^ ?P" using countDigits_bounds [OF b, of p] p0 by simp
    have bq: "b ^ ?Q \<le> q" using countDigits_bounds [OF b, of q] q0 by simp
    have B0: "(0::rat) < of_int b" using b by simp
    have P: "(of_int p :: rat) < of_int b ^ ?P"
      using bp by (metis of_int_less_iff of_int_power)
    have Q: "(of_int b :: rat) ^ ?Q \<le> of_int q"
      using bq by (metis of_int_le_iff of_int_power)
    have Q0: "(0::rat) < of_int b ^ ?Q" using B0 by simp
    have q0': "(0::rat) < of_int q" using q0 by simp
    have "(of_int p :: rat) / of_int q < of_int b ^ ?P / of_int q"
      using P q0' by (rule divide_strict_right_mono)
    also have "\<dots> \<le> of_int b ^ ?P / of_int b ^ ?Q"
    proof -
      have posP: "(0::rat) \<le> of_int b ^ ?P" using B0 by simp
      have prod: "(0::rat) < of_int q * of_int b ^ ?Q" using q0' Q0 by simp
      from Q posP prod show ?thesis by (rule divide_left_mono)
    qed
    also have "\<dots> = of_int b powi (?k + 1)"
    proof -
      have "?k + 1 = int ?P - int ?Q"
        using countDigits_pos [of b p] countDigits_pos [of b q] by simp
      then have "(of_int b :: rat) powi (?k + 1) = of_int b powi (int ?P - int ?Q)" by simp
      also have "\<dots> = of_int b powi int ?P / of_int b powi int ?Q"
        using B0 by (intro power_int_diff) simp
      also have "\<dots> = of_int b ^ ?P / of_int b ^ ?Q"
        by (simp only: power_int_of_nat)
      finally show ?thesis by simp
    qed
    finally have "a < of_int b powi (?k + 1)" by (simp only: av)
    then show ?thesis by (simp only: il)
  qed
qed

lemma roundEven_le:
  fixes n :: int
  assumes "m \<le> of_int n"
  shows "roundEven m \<le> n"
proof -
  show ?thesis
  proof (cases "m = of_int n")
    case True
    then show ?thesis by simp
  next
    case False
    with assms have "m < of_int n" by simp
    then have "\<lfloor>m\<rfloor> < n" by (simp add: floor_less_iff)
    then show ?thesis by (simp add: roundEven_def Let_def)
  qed
qed

text \<open>
  The mantissa of a rounded value has at most 53 bits, and it is the integer nearest to
  the value in units of the last bit.
\<close>

lemma mantissaOf_le:
  assumes a: "0 < a"
  shows "mantissaOf a \<le> 2 ^ 53"
proof -
  let ?e = "exponentOf a"
  have pe: "(0::rat) < 2 powi ?e" by simp
  have "ilog 2 a - 52 \<le> ?e" by (simp add: exponentOf_def)
  then have "ilog 2 a + 1 \<le> ?e + 53" by simp
  then have "(2::rat) powi (ilog 2 a + 1) \<le> 2 powi (?e + 53)"
    by (intro power_int_increasing) simp_all
  moreover have "a < 2 powi (ilog 2 a + 1)" using ilog_upper [of 2 a] a by simp
  ultimately have "a < 2 powi (?e + 53)" by linarith
  also have "(2::rat) powi (?e + 53) = 2 powi ?e * 2 powi 53"
    by (rule power_int_add) simp
  finally have "a / 2 powi ?e < 2 powi 53"
    using pe by (simp add: divide_less_eq mult.commute)
  then have "a / 2 powi ?e \<le> of_int (2 ^ 53)" by simp
  then show ?thesis unfolding mantissaOf_def by (rule roundEven_le)
qed

lemma mantissaOf_nearest: "\<bar>of_int (mantissaOf a) - a / 2 powi exponentOf a\<bar> \<le> 1 / 2"
  unfolding mantissaOf_def by (rule roundEven_near)

section \<open>Decimal years of bounded years\<close>

lemma month_fraction_values:
  "case jdiv (jsub (Fin 1) (Fin 1)) (Fin 12) of Fin c \<Rightarrow> \<bar>c - 0 / 12\<bar> \<le> 1 / 2 ^ 54 | _ \<Rightarrow> False"
  "case jdiv (jsub (Fin 2) (Fin 1)) (Fin 12) of Fin c \<Rightarrow> \<bar>c - 1 / 12\<bar> \<le> 1 / 2 ^ 54 | _ \<Rightarrow> False"
  "case jdiv (jsub (Fin 3) (Fin 1)) (Fin 12) of Fin c \<Rightarrow> \<bar>c - 2 / 12\<bar> \<le> 1 / 2 ^ 54 | _ \<Rightarrow> False"
  "case jdiv (jsub (Fin 4) (Fin 1)) (Fin 12) of Fin c \<Rightarrow> \<bar>c - 3 / 12\<bar> \<le> 1 / 2 ^ 54 | _ \<Rightarrow> False"
  "case jdiv (jsub (Fin 5) (Fin 1)) (Fin 12) of Fin c \<Rightarrow> \<bar>c - 4 / 12\<bar> \<le> 1 / 2 ^ 54 | _ \<Rightarrow> False"
  "case jdiv (jsub (Fin 6) (Fin 1)) (Fin 12) of Fin c \<Rightarrow> \<bar>c - 5 / 12\<bar> \<le> 1 / 2 ^ 54 | _ \<Rightarrow> False"
  "case jdiv (jsub (Fin 7) (Fin 1)) (Fin 12) of Fin c \<Rightarrow> \<bar>c - 6 / 12\<bar> \<le> 1 / 2 ^ 54 | _ \<Rightarrow> False"
  "case jdiv (jsub (Fin 8) (Fin 1)) (Fin 12) of Fin c \<Rightarrow> \<bar>c - 7 / 12\<bar> \<le> 1 / 2 ^ 54 | _ \<Rightarrow> False"
  "case jdiv (jsub (Fin 9) (Fin 1)) (Fin 12) of Fin c \<Rightarrow> \<bar>c - 8 / 12\<bar> \<le> 1 / 2 ^ 54 | _ \<Rightarrow> False"
  "case jdiv (jsub (Fin 10) (Fin 1)) (Fin 12) of Fin c \<Rightarrow> \<bar>c - 9 / 12\<bar> \<le> 1 / 2 ^ 54 | _ \<Rightarrow> False"
  "case jdiv (jsub (Fin 11) (Fin 1)) (Fin 12) of Fin c \<Rightarrow> \<bar>c - 10 / 12\<bar> \<le> 1 / 2 ^ 54 | _ \<Rightarrow> False"
  "case jdiv (jsub (Fin 12) (Fin 1)) (Fin 12) of Fin c \<Rightarrow> \<bar>c - 11 / 12\<bar> \<le> 1 / 2 ^ 54 | _ \<Rightarrow> False"
  by code_simp+

lemma month_fraction:
  fixes m :: int
  assumes "1 \<le> m" "m \<le> 12"
  shows "\<exists>c. jdiv (jsub (Fin (of_int m)) (Fin 1)) (Fin 12) = Fin c \<and>
             \<bar>c - (of_int m - 1) / 12\<bar> \<le> 1 / 2 ^ 54"
proof -
  have g: "\<exists>c. v = Fin c \<and> \<bar>c - t\<bar> \<le> 1 / 2 ^ 54"
    if "case v of Fin c \<Rightarrow> \<bar>c - t\<bar> \<le> 1 / 2 ^ 54 | _ \<Rightarrow> False" for v and t :: rat
    using that by (cases v) simp_all
  from assms have "m = 1 \<or> m = 2 \<or> m = 3 \<or> m = 4 \<or> m = 5 \<or> m = 6 \<or> m = 7
    \<or> m = 8 \<or> m = 9 \<or> m = 10 \<or> m = 11 \<or> m = 12" by arith
  then show ?thesis
    using month_fraction_values [THEN g] by (elim disjE) simp_all
qed

lemma nearest_thousandth:
  fixes y k n :: int and r :: rat
  assumes k: "0 \<le> k" "k \<le> 11"
    and n: "\<bar>of_int n / 1000 - r\<bar> \<le> 1 / 2000"
    and r: "\<bar>r - (of_int y + of_int k / 12)\<bar> \<le> 1 / 1000000"
  shows "\<bar>of_int n / 1000 - (of_int y + of_int k / 12)\<bar> < (1 / 2000 :: rat)"
proof -
  let ?x = "of_int y + of_int k / 12 :: rat"
  have "\<bar>of_int n / 1000 - ?x\<bar> \<le> 1 / 2000 + 1 / 1000000"
    using n r by linarith
  then have "\<bar>(of_int n / 1000 - ?x) * 12000\<bar> \<le> (1 / 2000 + 1 / 1000000) * (12000 :: rat)"
    by (simp only: abs_mult) simp
  then have "\<bar>of_int (12 * n - 12000 * y - 1000 * k) :: rat\<bar> < of_int 7"
    by (simp add: algebra_simps)
  then have b: "\<bar>12 * n - 12000 * y - 1000 * k\<bar> < 7"
    by (simp only: of_int_abs [symmetric] of_int_less_iff)
  from k have "k = 0 \<or> k = 1 \<or> k = 2 \<or> k = 3 \<or> k = 4 \<or> k = 5 \<or> k = 6
    \<or> k = 7 \<or> k = 8 \<or> k = 9 \<or> k = 10 \<or> k = 11" by arith
  then have "n = 1000 * y + [0, 83, 167, 250, 333, 417, 500, 583, 667, 750, 833, 917] ! nat k"
    using b by (elim disjE) simp_all
  then have "of_int n / 1000 - ?x
               = of_int ([0, 83, 167, 250, 333, 417, 500, 583, 667, 750, 833, 917] ! nat k) / 1000
                 - of_int k / 12"
    by (simp add: add_divide_distrib)
  moreover have "\<bar>of_int ([0, 83, 167, 250, 333, 417, 500, 583, 667, 750, 833, 917] ! nat k) / 1000
                 - of_int k / 12\<bar> < (1 / 2000 :: rat)"
    using \<open>k = 0 \<or> _\<close> by (elim disjE) simp_all
  ultimately show ?thesis by (simp only:)
qed

lemma decimal_year_bounded:
  fixes y m :: int
  assumes m: "1 \<le> m" "m \<le> 12" and y: "\<bar>y\<bar> \<le> 2 ^ 31"
  shows "\<exists>n::int. dateToDecimalYear (Fin (of_int y)) (Fin (of_int m)) = Inr (rd (of_int n / 1000)) \<and>
           \<bar>of_int n / 1000 - (of_int y + (of_int m - 1) / 12)\<bar> < (1 / 2000 :: rat)"
proof -
  from month_fraction [OF m] obtain c where
    c: "jdiv (jsub (Fin (of_int m)) (Fin 1)) (Fin 12) = Fin c"
       "\<bar>c - (of_int m - 1) / 12\<bar> \<le> 1 / 2 ^ 54"
    by blast
  have c1: "\<bar>c\<bar> \<le> 1"
  proof -
    have "\<bar>(of_int m - 1) / 12 :: rat\<bar> \<le> 11 / 12" using m by simp
    moreover have "(1::rat) / 2 ^ 54 \<le> 1 / 12" by simp
    ultimately show ?thesis using c(2) by linarith
  qed
  have yb: "\<bar>of_int y :: rat\<bar> \<le> 2 ^ 31"
    using y by (metis of_int_abs of_int_le_iff of_int_numeral of_int_power)
  let ?x = "of_int y + c :: rat"
  have xb: "\<bar>?x\<bar> \<le> 2 ^ 31 + 1" using yb c1 by linarith
  then have "\<bar>?x\<bar> \<le> 2 ^ 1000" by (rule order_trans) simp
  from rd_error [OF this] obtain r where
    r: "rd ?x = Fin r" "\<bar>r - ?x\<bar> \<le> max (\<bar>?x\<bar> / 2 ^ 53) (2 powi (- 1075))"
    by blast
  have b1: "\<bar>?x\<bar> / 2 ^ 53 \<le> (2 ^ 31 + 1) / 2 ^ 53"
    using xb by (rule divide_right_mono) simp
  have b2: "(2::rat) powi (- 1075) \<le> (2 ^ 31 + 1) / 2 ^ 53"
  proof -
    have e: "(- 53 :: int) = - int 53" by simp
    have "(2::rat) powi (- 1075) \<le> 2 powi (- 53)" by (rule power_int_increasing) simp_all
    also have "\<dots> = inverse (2 ^ 53)" by (simp only: e power_int_minus power_int_of_nat)
    also have "\<dots> = 1 / 2 ^ 53" by (rule inverse_eq_divide)
    also have "\<dots> \<le> (2 ^ 31 + 1) / 2 ^ 53" by (rule divide_right_mono) simp_all
    finally show ?thesis .
  qed
  have "max (\<bar>?x\<bar> / 2 ^ 53) (2 powi (- 1075)) \<le> (2 ^ 31 + 1) / (2 ^ 53 :: rat)"
    using b1 b2 by (rule max.boundedI)
  with r(2) have rx: "\<bar>r - ?x\<bar> \<le> (2 ^ 31 + 1) / 2 ^ 53" by (rule order_trans)
  have close: "\<bar>r - (of_int y + of_int (m - 1) / 12)\<bar> \<le> 1 / 1000000"
  proof -
    have "\<bar>r - (of_int y + (of_int m - 1) / 12)\<bar> \<le> (2 ^ 31 + 1) / 2 ^ 53 + 1 / 2 ^ 54"
      using rx c(2) by linarith
    also have "\<dots> \<le> 1 / 1000000" by simp
    finally show ?thesis by simp
  qed
  have rb: "\<bar>r\<bar> < 10 ^ 21"
  proof -
    have "\<bar>r\<bar> \<le> \<bar>?x\<bar> + (2 ^ 31 + 1) / 2 ^ 53" using rx by linarith
    also have "\<dots> \<le> (2 ^ 31 + 1) + (2 ^ 31 + 1) / 2 ^ 53" using xb by simp
    also have "\<dots> < 10 ^ 21" by simp
    finally show ?thesis .
  qed
  have sum: "jadd (Fin (of_int y)) (Fin c) = Fin r" using r(1) by simp
  obtain n :: int where n: "roundDecimal 3 r = of_int n / 10 ^ 3"
    using roundDecimal_scaled by blast
  have "\<bar>roundDecimal 3 r - r\<bar> \<le> 1 / (2 * 10 ^ 3)" by (rule roundDecimal_near)
  then have nr: "\<bar>of_int n / 1000 - r\<bar> \<le> 1 / 2000" using n by simp
  have valid: "\<not> (jless (Fin (of_int m)) (Fin 1) \<or> jless (Fin 12) (Fin (of_int m)))"
    using m by simp
  have "dateToDecimalYear (Fin (of_int y)) (Fin (of_int m)) = Inr (parseFloat (toFixed 3 (Fin r)))"
    using valid c(1) sum by (simp only: dateToDecimalYear_def Let_def if_False)
  also have "parseFloat (toFixed 3 (Fin r)) = rd (of_int n / 1000)"
    using toFixed_reads_back [OF rb, of 3] n by simp
  finally have v: "dateToDecimalYear (Fin (of_int y)) (Fin (of_int m)) = Inr (rd (of_int n / 1000))" .
  have "0 \<le> m - 1" "m - 1 \<le> 11" using m by simp_all
  from nearest_thousandth [OF this nr close]
  have "\<bar>of_int n / 1000 - (of_int y + (of_int m - 1) / 12)\<bar> < (1 / 2000 :: rat)" by simp
  with v show ?thesis by blast
qed

text \<open>
  C7, amended. For an integer year of magnitude at most \<open>2^31\<close> and an integer month
  from 1 to 12, \<open>dateToDecimalYear\<close> returns the double nearest to a whole number of
  thousandths that lies less than half a thousandth from the exact
  \<open>year + (month - 1) / 12\<close>. January 2024 gives 2024 and February 2024 gives 2024.083.
  For a month below 1 or above 12, also an infinite one, the call fails with the month
  error, for every year.
\<close>

theorem dateToDecimalYear_rounds:
  fixes y m :: int and q :: rat
  shows "(1 \<le> m \<and> m \<le> 12 \<and> \<bar>y\<bar> \<le> 2 ^ 31 \<longrightarrow>
            (\<exists>n::int. dateToDecimalYear (Fin (of_int y)) (Fin (of_int m)) = Inr (rd (of_int n / 1000)) \<and>
               \<bar>of_int n / 1000 - (of_int y + (of_int m - 1) / 12)\<bar> < (1 / 2000 :: rat))) \<and>
         (q < 1 \<or> 12 < q \<longrightarrow> dateToDecimalYear yr (Fin q) = Inl InvalidMonth) \<and>
         dateToDecimalYear yr PInf = Inl InvalidMonth \<and>
         dateToDecimalYear yr NInf = Inl InvalidMonth \<and>
         dateToDecimalYear (Fin 2024) (Fin 1) = Inr (Fin 2024) \<and>
         dateToDecimalYear (Fin 2024) (Fin 2) = Inr (rd (2024083 / 1000))"
proof -
  have a: "dateToDecimalYear (Fin 2024) (Fin 1) = Inr (Fin 2024)" by code_simp
  have b: "dateToDecimalYear (Fin 2024) (Fin 2) = Inr (rd (2024083 / 1000))" by code_simp
  have c: "q < 1 \<or> 12 < q \<longrightarrow> dateToDecimalYear yr (Fin q) = Inl InvalidMonth"
    by (simp add: dateToDecimalYear_def)
  have d: "dateToDecimalYear yr PInf = Inl InvalidMonth" "dateToDecimalYear yr NInf = Inl InvalidMonth"
    by (simp_all add: dateToDecimalYear_def)
  show ?thesis
    using a b c d decimal_year_bounded [of m y] by (simp only:) blast
qed

theorem dateToDecimalYear_rounds_witness:
  "(\<exists>n::int. dateToDecimalYear (Fin 2024) (Fin 2) = Inr (rd (of_int n / 1000)) \<and>
      \<bar>of_int n / 1000 - (2024 + (2 - 1) / 12)\<bar> < (1 / 2000 :: rat)) \<and>
   dateToDecimalYear (Fin 2024) (Fin 13) = Inl InvalidMonth"
proof -
  have h: "1 \<le> (2::int) \<and> (2::int) \<le> 12 \<and> \<bar>2024::int\<bar> \<le> 2 ^ 31" by simp
  have q: "(13::rat) < 1 \<or> 12 < (13::rat)" by simp
  from dateToDecimalYear_rounds [of 2 2024 13 "Fin 2024"] h q
  have "\<exists>n::int. dateToDecimalYear (Fin (of_int 2024)) (Fin (of_int 2)) = Inr (rd (of_int n / 1000)) \<and>
          \<bar>of_int n / 1000 - (of_int 2024 + (of_int 2 - 1) / 12)\<bar> < (1 / 2000 :: rat)"
    and "dateToDecimalYear (Fin 2024) (Fin 13) = Inl InvalidMonth"
    by blast+
  then show ?thesis by (simp only: of_int_numeral)
qed

section \<open>Step points and their order\<close>

lemma jadd_grid:
  assumes "jadd x y = Fin r"
  shows "\<exists>k::int. r = of_int k * 2 powi (- 1074)"
proof -
  from assms obtain a b where "x = Fin a" "y = Fin b"
    by (cases x; cases y) simp_all
  with assms have "rd (a + b) = Fin r" by simp
  then show ?thesis by (rule rd_grid)
qed

lemma toStepPoint_grid:
  "toStepPoint y s = Fin r \<Longrightarrow> \<exists>k::int. r = of_int k * 2 powi (- 1074)"
  unfolding toStepPoint_def by (rule jadd_grid)

lemma difference_sign:
  fixes ka kb :: int
  shows "jless (Fin 0) (jsub (Fin (of_int ka * 2 powi (- 1074))) (Fin (of_int kb * 2 powi (- 1074))))
           \<longleftrightarrow> kb < ka"
proof -
  let ?u = "2 powi (- 1074) :: rat"
  have u: "0 < ?u" by simp
  have s: "jsub (Fin (of_int ka * ?u)) (Fin (of_int kb * ?u)) = rd (of_int (ka - kb) * ?u)"
    by (simp only: jsub_def jneg.simps jadd.simps of_int_diff left_diff_distrib) simp
  show ?thesis
  proof (cases "kb < ka")
    case True
    then have "1 \<le> ka - kb" by simp
    then have "(1::rat) \<le> of_int (ka - kb)" by (simp only: of_int_1_le_iff)
    then have "1 * ?u \<le> of_int (ka - kb) * ?u" using u by (simp only: mult_le_cancel_right_pos)
    then have "?u \<le> of_int (ka - kb) * ?u" by (simp only: mult_1)
    then have "jless (Fin 0) (rd (of_int (ka - kb) * ?u))" by (rule rd_pos)
    with True s show ?thesis by (simp only:)
  next
    case False
    then have "ka - kb \<le> 0" by simp
    then have "(of_int (ka - kb) :: rat) \<le> 0" by (simp only: of_int_le_0_iff)
    then have "of_int (ka - kb) * ?u \<le> 0" using u by (simp only: mult_le_0_iff) simp
    then have "\<not> jless (Fin 0) (rd (of_int (ka - kb) * ?u))" by (rule rd_nonpos)
    with False s show ?thesis by (simp only:)
  qed
qed

lemma grid_less:
  fixes ka kb :: int
  shows "jless (Fin (of_int kb * 2 powi (- 1074))) (Fin (of_int ka * 2 powi (- 1074 :: int)) :: number)
           \<longleftrightarrow> kb < ka"
proof -
  have u: "0 < (2 powi (- 1074) :: rat)" by simp
  show ?thesis using u by (simp only: jless.simps mult_less_cancel_right_pos of_int_less_iff)
qed

lemma comparator_sign:
  assumes a: "\<not> isNaN x" "\<forall>r. x = Fin r \<longrightarrow> (\<exists>k::int. r = of_int k * 2 powi (- 1074))"
    and b: "\<not> isNaN y" "\<forall>r. y = Fin r \<longrightarrow> (\<exists>k::int. r = of_int k * 2 powi (- 1074))"
  shows "jless (Fin 0) (jsub x y) \<longleftrightarrow> jless y x"
proof (cases x)
  case (Fin r)
  then obtain ka :: int where ka: "x = Fin (of_int ka * 2 powi (- 1074))" using a(2) by blast
  show ?thesis
  proof (cases y)
    case (Fin t)
    then obtain kb :: int where kb: "y = Fin (of_int kb * 2 powi (- 1074))" using b(2) by blast
    show ?thesis by (simp only: ka kb difference_sign grid_less)
  qed (use b(1) ka in \<open>simp_all add: jsub_def\<close>)
next
  case NaN
  with a(1) show ?thesis by simp
next
  case PInf
  then show ?thesis using b(1) by (cases y) (simp_all add: jsub_def)
next
  case NInf
  then show ?thesis using b(1) by (cases y) (simp_all add: jsub_def)
qed

lemma comparePoints_sign:
  assumes "point a = toStepPoint ya sa" "point b = toStepPoint yb sb"
    and "\<not> isNaN (point a)" "\<not> isNaN (point b)"
  shows "jless (Fin 0) (comparePoints a b) \<longleftrightarrow> jless (point b) (point a)"
  unfolding comparePoints_def
  using assms toStepPoint_grid by (intro comparator_sign) (simp_all only:, blast+)

section \<open>The sort\<close>

lemma set_insertPoint [simp]: "set (insertPoint a bs) = insert a (set bs)"
  by (induction bs) auto

lemma mset_insertPoint [simp]: "mset (insertPoint a bs) = add_mset a (mset bs)"
  by (induction bs) auto

lemma mset_sortPoints: "mset (sortPoints ps) = mset ps"
  unfolding sortPoints_def by (induction ps) auto

lemma length_sortPoints: "length (sortPoints ps) = length ps"
  using mset_sortPoints [of ps] by (metis size_mset)

lemma set_sortPoints: "set (sortPoints ps) = set ps"
  using mset_sortPoints [of ps] by (metis set_mset_mset)

lemma compare_self: "\<not> jless (Fin 0) (jsub x x)"
  by (cases x) (simp_all add: jsub_def)

lemma filter_insertPoint:
  "filter (\<lambda>p. point p = v) (insertPoint a bs) = filter (\<lambda>p. point p = v) (a # bs)"
proof (induction bs)
  case Nil
  show ?case by simp
next
  case (Cons b bs)
  show ?case
  proof (cases "jless (Fin 0) (comparePoints a b)")
    case True
    then have "point a \<noteq> point b"
      using compare_self [of "point a"] by (auto simp: comparePoints_def)
    with True Cons show ?thesis by auto
  next
    case False
    then show ?thesis by simp
  qed
qed

lemma sortPoints_stable:
  "filter (\<lambda>p. point p = v) (sortPoints ps) = filter (\<lambda>p. point p = v) ps"
  unfolding sortPoints_def by (induction ps) (simp_all add: filter_insertPoint)

lemma sorted_insertPoint:
  assumes cmp: "\<forall>x \<in> insert a (set bs). \<forall>y \<in> insert a (set bs).
                  jless (Fin 0) (comparePoints x y) \<longleftrightarrow> jless (point y) (point x)"
    and nn: "\<forall>x \<in> insert a (set bs). \<not> isNaN (point x)"
    and srt: "sorted_wrt (\<lambda>p q. \<not> jless (point q) (point p)) bs"
  shows "sorted_wrt (\<lambda>p q. \<not> jless (point q) (point p)) (insertPoint a bs)"
  using assms
proof (induction bs)
  case Nil
  show ?case by simp
next
  case (Cons b bs)
  have cmp': "\<forall>x \<in> insert a (set bs). \<forall>y \<in> insert a (set bs).
                  jless (Fin 0) (comparePoints x y) \<longleftrightarrow> jless (point y) (point x)"
    using Cons.prems(1) by simp
  have nn': "\<forall>x \<in> insert a (set bs). \<not> isNaN (point x)" using Cons.prems(2) by simp
  have srt': "sorted_wrt (\<lambda>p q. \<not> jless (point q) (point p)) bs" using Cons.prems(3) by simp
  have bx: "\<forall>x \<in> set bs. \<not> jless (point x) (point b)" using Cons.prems(3) by simp
  have ab: "jless (Fin 0) (comparePoints a b) \<longleftrightarrow> jless (point b) (point a)"
    using Cons.prems(1) by simp
  show ?case
  proof (cases "jless (Fin 0) (comparePoints a b)")
    case True
    then have ba: "jless (point b) (point a)" using ab by simp
    have "\<not> jless (point a) (point b)"
    proof
      assume "jless (point a) (point b)"
      then have "jless (point a) (point a)" using ba by (rule jless_trans)
      then show False by simp
    qed
    then have "\<forall>x \<in> set (insertPoint a bs). \<not> jless (point x) (point b)"
      using bx by simp
    moreover have "sorted_wrt (\<lambda>p q. \<not> jless (point q) (point p)) (insertPoint a bs)"
      using cmp' nn' srt' by (rule Cons.IH)
    ultimately show ?thesis using True by simp
  next
    case False
    then have nba: "\<not> jless (point b) (point a)" using ab by simp
    have "\<not> jless (point x) (point a)" if x: "x \<in> set bs" for x
    proof
      assume xa: "jless (point x) (point a)"
      have "\<not> isNaN (point b)" using Cons.prems(2) by simp
      with xa nba have "jless (point x) (point b)" by (rule jless_below)
      with bx x show False by blast
    qed
    then show ?thesis using False nba Cons.prems(3) by simp
  qed
qed

lemma sorted_sortPoints:
  assumes cmp: "\<forall>x \<in> set ps. \<forall>y \<in> set ps.
                  jless (Fin 0) (comparePoints x y) \<longleftrightarrow> jless (point y) (point x)"
    and nn: "\<forall>x \<in> set ps. \<not> isNaN (point x)"
  shows "sorted_wrt (\<lambda>p q. \<not> jless (point q) (point p)) (sortPoints ps)"
  using assms
proof (induction ps)
  case Nil
  show ?case by (simp add: sortPoints_def)
next
  case (Cons a ps)
  have s: "sorted_wrt (\<lambda>p q. \<not> jless (point q) (point p)) (sortPoints ps)"
    using Cons.prems by (intro Cons.IH) simp_all
  have "sorted_wrt (\<lambda>p q. \<not> jless (point q) (point p)) (insertPoint a (sortPoints ps))"
    using Cons.prems s by (intro sorted_insertPoint) (simp_all only: set_sortPoints list.set)
  then show ?case by (simp add: sortPoints_def)
qed

section \<open>The points of an export\<close>

lemma chart_row_point:
  "chart_row yi si ti di line = Some p \<Longrightarrow> point p = toStepPoint (year p) (step p)"
  by (auto simp: chart_row_def Let_def split: if_splits)

lemma points_loop_point:
  assumes "\<forall>p \<in> set acc. point p = toStepPoint (year p) (step p)"
  shows "\<forall>p \<in> set (points_loop yi si ti di acc ls). point p = toStepPoint (year p) (step p)"
  using assms
proof (induction ls arbitrary: acc)
  case Nil
  then show ?case by simp
next
  case (Cons l ls)
  show ?case
  proof (cases "chart_row yi si ti di l")
    case None
    then show ?thesis using Cons.IH [OF Cons.prems] by simp
  next
    case (Some p)
    then have "\<forall>p \<in> set (acc @ [p]). point p = toStepPoint (year p) (step p)"
      using Cons.prems chart_row_point [OF Some] by simp
    from Cons.IH [OF this] Some show ?thesis by simp
  qed
qed

lemma chart_points_point:
  assumes "chart_points d = Inr ps"
  shows "\<forall>p \<in> set ps. point p = toStepPoint (year p) (step p)"
proof -
  from assms obtain yi si ti di rows where
    "ps = points_loop yi si ti di [] rows"
    by (auto simp: chart_points_def Let_def split: js_value.splits if_splits option.splits)
  then show ?thesis using points_loop_point [of "[]" yi si ti di rows] by simp
qed

section \<open>The changes\<close>

lemma changes_loop_filter:
  "changes_loop lo hi pts i acc =
     acc @ map (\<lambda>k. step_change (pts ! k) (pts ! (k - 1)))
             (filter (\<lambda>k. \<not> jless (point (pts ! k)) lo \<and> \<not> jless hi (point (pts ! k)))
                [i..<length pts])"
proof (induction lo hi pts i acc rule: changes_loop.induct)
  case (1 lo hi pts i acc)
  show ?case
  proof (cases "i < length pts")
    case True
    then have u: "[i..<length pts] = i # [i + 1..<length pts]"
      by (simp add: upt_conv_Cons)
    show ?thesis
    proof (cases "jless (point (pts ! i)) lo \<or> jless hi (point (pts ! i))")
      case skip: True
      from 1(1) [OF True refl refl skip] True skip show ?thesis
        by (subst changes_loop.simps) (auto simp: u Let_def)
    next
      case keep: False
      from 1(2) [OF True refl refl keep] True keep show ?thesis
        by (subst changes_loop.simps) (auto simp: u Let_def)
    qed
  next
    case False
    then show ?thesis by (subst changes_loop.simps) simp
  qed
qed

lemma extract_by_points:
  assumes "chart_points dat = Inr ps" "2 \<le> length ps"
  shows "extractStepCarbonChanges dat r =
     (let pts = sortPoints ps;
          lo = jmin (toStepPoint (startYear r) (startStepInYear r))
                    (toStepPoint (endYear r) (endStepInYear r));
          hi = jmax (toStepPoint (startYear r) (startStepInYear r))
                    (toStepPoint (endYear r) (endStepInYear r));
          changes = map (\<lambda>i. step_change (pts ! i) (pts ! (i - 1)))
                      (filter (\<lambda>i. \<not> jless (point (pts ! i)) lo \<and> \<not> jless hi (point (pts ! i)))
                         [1..<length pts])
      in if changes = [] then Inl NoStepChanges else Inr changes)"
  using assms by (simp add: extractStepCarbonChanges_def Let_def changes_loop_filter length_sortPoints)

section \<open>Step changes\<close>

text \<open>
  C5. When the export gives at least two points and no step point is \<open>NaN\<close>,
  \<open>extractStepCarbonChanges\<close> sorts them by step point, ascending and keeping the order
  of equal step points, each step point being \<open>toStepPoint year step\<close>, which is
  \<open>year * 12 + (step - 1)\<close> exactly for integers up to \<open>2^48\<close> in magnitude. It emits one
  change for every sorted index \<open>i \<ge> 1\<close> whose step point is neither below the smaller
  nor above the larger end of the range. The change has the label made of the year, the
  text \<open>-S\<close> and the step of point \<open>i\<close>, both written as JavaScript writes a number, and
  the delta between the combined carbon of point \<open>i\<close> and of point \<open>i - 1\<close> of the sorted
  list, whether or not point \<open>i - 1\<close> is in the window, rounded to ten decimals: for a
  finite difference below \<open>10^21\<close> in magnitude, the double nearest to a whole number of
  \<open>10^-10\<close> within half of \<open>10^-10\<close> of the difference. With no such index the call
  fails. On the example export the one change has label 2024-S2 and delta 0.6.
\<close>

theorem step_changes_spec:
  assumes pts: "chart_points dat = Inr ps" and two: "2 \<le> length ps"
    and nan: "\<forall>p \<in> set ps. \<not> isNaN (point p)"
  shows "(let pts = sortPoints ps;
              lo = jmin (toStepPoint (startYear r) (startStepInYear r))
                        (toStepPoint (endYear r) (endStepInYear r));
              hi = jmax (toStepPoint (startYear r) (startStepInYear r))
                        (toStepPoint (endYear r) (endStepInYear r));
              changes =
                map (\<lambda>i. \<lparr>label = numberToString (year (pts ! i)) @ ''-S'' @
                                     numberToString (step (pts ! i)),
                           delta = parseFloat (toFixed 10
                                     (jsub (combinedCarbon (pts ! i))
                                           (combinedCarbon (pts ! (i - 1)))))\<rparr>)
                    (filter (\<lambda>i. \<not> jless (point (pts ! i)) lo \<and> \<not> jless hi (point (pts ! i)))
                       [1..<length pts])
          in sorted_wrt (\<lambda>p q. \<not> jless (point q) (point p)) pts \<and> mset pts = mset ps \<and>
             (\<forall>k. filter (\<lambda>p. point p = k) pts = filter (\<lambda>p. point p = k) ps) \<and>
             (\<forall>p \<in> set ps. point p = toStepPoint (year p) (step p)) \<and>
             extractStepCarbonChanges dat r =
               (if changes = [] then Inl NoStepChanges else Inr changes)) \<and>
         (\<forall>x. \<bar>x\<bar> < 10 ^ 21 \<longrightarrow>
            (\<exists>n::int. parseFloat (toFixed 10 (Fin x)) = rd (of_int n / 10 ^ 10) \<and>
                       \<bar>of_int n / 10 ^ 10 - x\<bar> \<le> 1 / (2 * 10 ^ 10))) \<and>
         (\<forall>y s::int. \<bar>y\<bar> \<le> 2 ^ 48 \<and> \<bar>s\<bar> \<le> 2 ^ 48 \<longrightarrow>
            toStepPoint (Fin (of_int y)) (Fin (of_int s)) = Fin (of_int (y * 12 + (s - 1)))) \<and>
         extractStepCarbonChanges (JsString example_export)
           \<lparr>startYear = Fin 2024, startStepInYear = Fin 1, endYear = Fin 2024, endStepInYear = Fin 2\<rparr>
           = Inr [\<lparr>label = ''2024-S2'', delta = rd (6 / 10)\<rparr>]"
proof -
  have a: "\<forall>p \<in> set ps. point p = toStepPoint (year p) (step p)"
    using pts by (rule chart_points_point)
  have cmp: "\<forall>x \<in> set ps. \<forall>y \<in> set ps.
               jless (Fin 0) (comparePoints x y) \<longleftrightarrow> jless (point y) (point x)"
    using a nan comparePoints_sign by blast
  have s: "sorted_wrt (\<lambda>p q. \<not> jless (point q) (point p)) (sortPoints ps)"
    using cmp nan by (rule sorted_sortPoints)
  have b: "\<forall>k. filter (\<lambda>p. point p = k) (sortPoints ps) = filter (\<lambda>p. point p = k) ps"
    by (simp add: sortPoints_stable)
  have c: "extractStepCarbonChanges (JsString example_export)
           \<lparr>startYear = Fin 2024, startStepInYear = Fin 1, endYear = Fin 2024, endStepInYear = Fin 2\<rparr>
           = Inr [\<lparr>label = ''2024-S2'', delta = rd (6 / 10)\<rparr>]"
    by code_simp
  have d: "\<forall>x::rat. \<bar>x\<bar> < 10 ^ 21 \<longrightarrow>
            (\<exists>n::int. parseFloat (toFixed 10 (Fin x)) = rd (of_int n / 10 ^ 10) \<and>
                       \<bar>of_int n / 10 ^ 10 - x\<bar> \<le> 1 / (2 * 10 ^ 10))"
    using toFixed_rounds [of _ 10] by blast
  have e: "\<forall>y s::int. \<bar>y\<bar> \<le> 2 ^ 48 \<and> \<bar>s\<bar> \<le> 2 ^ 48 \<longrightarrow>
            toStepPoint (Fin (of_int y)) (Fin (of_int s)) = Fin (of_int (y * 12 + (s - 1)))"
    using toStepPoint_exact by blast
  have f: "extractStepCarbonChanges dat r =
     (let pts = sortPoints ps;
          lo = jmin (toStepPoint (startYear r) (startStepInYear r))
                    (toStepPoint (endYear r) (endStepInYear r));
          hi = jmax (toStepPoint (startYear r) (startStepInYear r))
                    (toStepPoint (endYear r) (endStepInYear r));
          changes = map (\<lambda>i. step_change (pts ! i) (pts ! (i - 1)))
                      (filter (\<lambda>i. \<not> jless (point (pts ! i)) lo \<and> \<not> jless hi (point (pts ! i)))
                         [1..<length pts])
      in if changes = [] then Inl NoStepChanges else Inr changes)"
    using pts two by (rule extract_by_points)
  have g: "(let pts = sortPoints ps;
              lo = jmin (toStepPoint (startYear r) (startStepInYear r))
                        (toStepPoint (endYear r) (endStepInYear r));
              hi = jmax (toStepPoint (startYear r) (startStepInYear r))
                        (toStepPoint (endYear r) (endStepInYear r));
              changes =
                map (\<lambda>i. \<lparr>label = numberToString (year (pts ! i)) @ ''-S'' @
                                     numberToString (step (pts ! i)),
                           delta = parseFloat (toFixed 10
                                     (jsub (combinedCarbon (pts ! i))
                                           (combinedCarbon (pts ! (i - 1)))))\<rparr>)
                    (filter (\<lambda>i. \<not> jless (point (pts ! i)) lo \<and> \<not> jless hi (point (pts ! i)))
                       [1..<length pts])
          in sorted_wrt (\<lambda>p q. \<not> jless (point q) (point p)) pts \<and> mset pts = mset ps \<and>
             (\<forall>k. filter (\<lambda>p. point p = k) pts = filter (\<lambda>p. point p = k) ps) \<and>
             (\<forall>p \<in> set ps. point p = toStepPoint (year p) (step p)) \<and>
             extractStepCarbonChanges dat r =
               (if changes = [] then Inl NoStepChanges else Inr changes))"
    using a b s f mset_sortPoints [of ps] by (simp add: Let_def step_change_def)
  from g d e c show ?thesis by (intro conjI)
qed

theorem step_changes_spec_witness:
  "chart_points (JsString example_export) =
     Inr [\<lparr>year = Fin 2024, step = Fin 1, point = Fin 24288, combinedCarbon = Fin 12\<rparr>,
          \<lparr>year = Fin 2024, step = Fin 2, point = Fin 24289, combinedCarbon = rd (63 / 5)\<rparr>] \<and>
   (2::nat) \<le> length [\<lparr>year = Fin 2024, step = Fin 1, point = Fin 24288, combinedCarbon = Fin 12\<rparr>,
          \<lparr>year = Fin 2024, step = Fin 2, point = Fin 24289, combinedCarbon = rd (63 / 5)\<rparr>] \<and>
   \<not> isNaN (Fin 24288) \<and> \<not> isNaN (Fin 24289) \<and>
   extractStepCarbonChanges (JsString example_export)
           \<lparr>startYear = Fin 2024, startStepInYear = Fin 1, endYear = Fin 2024, endStepInYear = Fin 2\<rparr>
           = Inr [\<lparr>label = ''2024-S2'', delta = rd (6 / 10)\<rparr>]"
proof -
  have a: "chart_points (JsString example_export) =
     Inr [\<lparr>year = Fin 2024, step = Fin 1, point = Fin 24288, combinedCarbon = Fin 12\<rparr>,
          \<lparr>year = Fin 2024, step = Fin 2, point = Fin 24289, combinedCarbon = rd (63 / 5)\<rparr>]"
    by code_simp
  have b: "(2::nat) \<le> length [\<lparr>year = Fin 2024, step = Fin 1, point = Fin 24288, combinedCarbon = Fin 12\<rparr>,
          \<lparr>year = Fin 2024, step = Fin 2, point = Fin 24289, combinedCarbon = rd (63 / 5)\<rparr>]" by simp
  have c: "\<forall>p \<in> set [\<lparr>year = Fin 2024, step = Fin 1, point = Fin 24288, combinedCarbon = Fin 12\<rparr>,
          \<lparr>year = Fin 2024, step = Fin 2, point = Fin 24289, combinedCarbon = rd (63 / 5)\<rparr>].
      \<not> isNaN (point p)" by simp
  have d: "\<not> isNaN (Fin 24288) \<and> \<not> isNaN (Fin 24289)" by simp
  from step_changes_spec [OF a b c] a b d show ?thesis by blast
qed

text \<open>
  A row with an \<open>Infinity\<close> field is kept, and a year of 22 digits is printed in exponent
  form.
\<close>

lemma large_year_label:
  "extractStepCarbonChanges (JsString large_year_export)
     \<lparr>startYear = Fin 0, startStepInYear = Fin 1,
      endYear = Fin 1000000000000000000000, endStepInYear = Fin 1\<rparr>
   = Inr [\<lparr>label = ''1e+21-S1'', delta = PInf\<rparr>]"
  by code_simp

section \<open>Column resolution\<close>

lemma findIndex_cong_pointwise:
  "list_all2 (\<lambda>x y. P x \<longleftrightarrow> P y) xs ys \<Longrightarrow> findIndex P xs = findIndex P ys"
  by (induction xs ys rule: list_all2_induct) simp_all

lemma findIndex_Some_iff:
  "findIndex P xs = Some i \<longleftrightarrow> i < length xs \<and> P (xs ! i) \<and> (\<forall>j < i. \<not> P (xs ! j))"
proof (induction xs arbitrary: i)
  case Nil
  then show ?case by simp
next
  case (Cons x xs)
  show ?case
  proof (cases "P x")
    case True
    then show ?thesis by (cases i) auto
  next
    case False
    show ?thesis
    proof (cases i)
      case 0
      then show ?thesis using False by simp
    next
      case (Suc k)
      have "(\<forall>j < Suc k. \<not> P ((x # xs) ! j)) \<longleftrightarrow> (\<forall>j < k. \<not> P (xs ! j))"
        using False by (auto simp: less_Suc_eq_0_disj)
      then show ?thesis using False Suc Cons.IH [of k] by auto
    qed
  qed
qed

lemma findIndex_None_iff: "findIndex P xs = None \<longleftrightarrow> (\<forall>x \<in> set xs. \<not> P x)"
  by (induction xs) auto

text \<open>
  C3. Take a header row in which a role resolves, and reorder its columns so that every
  column matching the role, before or after, stays where it is (only columns unrelated
  to the role move). The role then resolves to the same index on both rows, and that
  index holds the same matching column.
\<close>

theorem column_resolution_reorder:
  assumes present: "resolve r hs \<noteq> None"
    and reorder: "mset hs' = mset hs"
    and fixed: "list_all2 (\<lambda>h h'. role_matches r h \<or> role_matches r h' \<longrightarrow> h' = h) hs hs'"
  shows "resolve r hs' = resolve r hs \<and>
         (\<exists>i < length hs. resolve r hs' = Some i \<and> role_matches r (hs' ! i) \<and> hs' ! i = hs ! i)"
proof -
  have len: "length hs = length hs'"
    using fixed by (rule list_all2_lengthD)
  have nth: "role_matches r (hs ! i) \<or> role_matches r (hs' ! i) \<longrightarrow> hs' ! i = hs ! i"
    if "i < length hs" for i
    using fixed that by (rule list_all2_nthD)
  have "list_all2 (\<lambda>h h'. role_matches r h \<longleftrightarrow> role_matches r h') hs hs'"
    unfolding list_all2_conv_all_nth using len nth by metis
  from findIndex_cong_pointwise [of "role_matches r" hs hs', OF this]
  have eq: "resolve r hs' = resolve r hs"
    by (simp add: resolve_def)
  from present obtain i where i: "resolve r hs = Some i" by blast
  then have i': "i < length hs" "role_matches r (hs ! i)"
    by (simp_all add: resolve_def findIndex_Some_iff)
  have "hs' ! i = hs ! i"
    using nth [OF i'(1)] i'(2) by simp
  then show ?thesis using eq i i' by simp
qed

theorem column_resolution_reorder_witness:
  "resolve DecYearRole [''Year'', ''Site'', ''Dec. Year'', ''Note''] \<noteq> None \<and>
   mset [''Note'', ''Year'', ''Dec. Year'', ''Site''] = mset [''Year'', ''Site'', ''Dec. Year'', ''Note''] \<and>
   resolve DecYearRole [''Note'', ''Year'', ''Dec. Year'', ''Site''] = Some 2 \<and>
   resolve DecYearRole [''Year'', ''Site'', ''Dec. Year'', ''Note''] = Some 2"
proof -
  have a: "resolve DecYearRole [''Year'', ''Site'', ''Dec. Year'', ''Note''] \<noteq> None"
    by code_simp
  have b: "mset [''Note'', ''Year'', ''Dec. Year'', ''Site''] = mset [''Year'', ''Site'', ''Dec. Year'', ''Note'']"
    by simp
  have c: "list_all2 (\<lambda>h h'. role_matches DecYearRole h \<or> role_matches DecYearRole h' \<longrightarrow> h' = h)
             [''Year'', ''Site'', ''Dec. Year'', ''Note''] [''Note'', ''Year'', ''Dec. Year'', ''Site'']"
    by code_simp
  have d: "resolve DecYearRole [''Year'', ''Site'', ''Dec. Year'', ''Note''] = Some 2"
    by code_simp
  from column_resolution_reorder [OF a b c] a b d show ?thesis by simp
qed

section \<open>Evaluating floors and ceilings of fractions\<close>

lemma floor_rat_numeral [simp]:
  "\<lfloor>numeral a / numeral b :: rat\<rfloor> = numeral a div numeral b"
  by (metis floor_divide_of_int_eq of_int_numeral)

lemma ceiling_rat_numeral [simp]:
  "\<lceil>numeral a / numeral b :: rat\<rceil> = - (- numeral a div numeral b)"
  by (metis ceiling_divide_eq_div of_int_numeral)

section \<open>Shared tick indices\<close>

lemma tick_loop_filter:
  "tick_loop s n i acc = acc @ filter (\<lambda>k. k mod s = 0 \<or> k = n - 1) [i..n - 1]"
proof (induction s n i acc rule: tick_loop.induct)
  case (1 s n i acc)
  show ?case
  proof (cases "i < n")
    case True
    then have u: "[i..n - 1] = i # [i + 1..n - 1]" by (simp add: upto_rec1)
    show ?thesis using True 1 [OF True] by (subst tick_loop.simps) (simp add: u)
  next
    case False
    then show ?thesis by (subst tick_loop.simps) simp
  qed
qed

lemma ticks_17: "getSharedTickIndices 17 = [0, 3, 6, 9, 12, 15, 16]"
  by code_simp

text \<open>
  C9. For a series length of at least 1, the tick indices are index 0, every multiple of
  the step \<open>max 1 (ceil (seriesLength / 8))\<close> below the length, and the last index
  \<open>seriesLength - 1\<close>, each of them once. For length 17 they are 0, 3, 6, 9, 12, 15, 16.
\<close>

theorem getSharedTickIndices_spec:
  "(1 \<le> n \<longrightarrow>
      set (getSharedTickIndices n) =
        {0} \<union> {k. 0 \<le> k \<and> k < n \<and> k mod (max 1 \<lceil>(of_int n :: rat) / 8\<rceil>) = 0} \<union> {n - 1})
   \<and> distinct (getSharedTickIndices n)
   \<and> getSharedTickIndices 17 = [0, 3, 6, 9, 12, 15, 16]"
proof -
  have d: "distinct (getSharedTickIndices n)"
    by (simp add: getSharedTickIndices_def tick_loop_filter Let_def)
  have s: "set (getSharedTickIndices n) =
        {0} \<union> {k. 0 \<le> k \<and> k < n \<and> k mod (max 1 \<lceil>(of_int n :: rat) / 8\<rceil>) = 0} \<union> {n - 1}"
    if "1 \<le> n"
    using that by (auto simp: getSharedTickIndices_def tick_loop_filter Let_def)
  show ?thesis using d s ticks_17 by blast
qed

theorem getSharedTickIndices_spec_witness:
  "(1::int) \<le> 17 \<and> set (getSharedTickIndices 17) = {0, 3, 6, 9, 12, 15, 16}"
  using getSharedTickIndices_spec [of 17] by simp

end
